theory Spec2Isabelle
  imports Main "HOL-Library.Word"
begin

section \<open>Machine integers, bytes and errors\<close>

text \<open>
  Go's \<open>uint64\<close>, \<open>uint32\<close> and \<open>byte\<close> are words of the same width: arithmetic wraps
  around.  An \<open>int64\<close> is a 64-bit word read with \<open>sint\<close>; the conversions between
  \<open>int64\<close> and \<open>uint64\<close> keep the bits.  A byte slice is a list of bytes.
\<close>

type_synonym byte = "8 word"
type_synonym uint32 = "32 word"
type_synonym uint64 = "64 word"
type_synonym int64 = "64 word"

text \<open>
  The error values of the program: \<open>io.EOF\<close>, an error made by \<open>fmt.Errorf\<close> (its
  message), the typed \<open>api.ErrOffsetOutOfRange\<close> (its offset), a run-time panic of Go
  (index or slice bounds out of range, nil dereference), an error of a system call,
  an error of \<open>proto.Marshal\<close>, and \<open>balancer.ErrNoSubConnAvailable\<close>.
\<close>

datatype error =
    EOF
  | ErrorString string
  | ErrOffsetOutOfRange uint64
  | RuntimePanic string
  | SyscallError string
  | MarshalError
  | ErrNoSubConnAvailable

subsection \<open>\<open>encoding/binary\<close>, big endian\<close>

text \<open>
  \<open>enc = binary.BigEndian\<close>.  \<open>be_bytes n x\<close> are the \<open>n\<close> low bytes of \<open>x\<close>, most
  significant first; \<open>be_value\<close> reads such a byte string back.
\<close>

fun be_bytes :: "nat \<Rightarrow> nat \<Rightarrow> byte list" where
  "be_bytes 0 x = []"
| "be_bytes (Suc n) x = be_bytes n (x div 256) @ [of_nat (x mod 256)]"

definition be_value :: "byte list \<Rightarrow> nat" where
  "be_value bs = foldl (\<lambda>a b. a * 256 + unat b) 0 bs"

definition PutUint32 :: "uint32 \<Rightarrow> byte list" where
  "PutUint32 v = be_bytes 4 (unat v)"

definition Uint32 :: "byte list \<Rightarrow> uint32" where
  "Uint32 b = of_nat (be_value b)"

definition PutUint64 :: "uint64 \<Rightarrow> byte list" where
  "PutUint64 v = be_bytes 8 (unat v)"

definition Uint64 :: "byte list \<Rightarrow> uint64" where
  "Uint64 b = of_nat (be_value b)"

subsection \<open>Decimal numbers in strings\<close>

text \<open>\<open>fmt_d n\<close> is \<open>fmt.Sprintf("%d", n)\<close> for an unsigned \<open>n\<close>.\<close>

definition digit_char :: "nat \<Rightarrow> char" where
  "digit_char d = char_of (of_char (CHR ''0'') + d)"

function fmt_d :: "nat \<Rightarrow> string" where
  "fmt_d n = (if n < 10 then [digit_char n] else fmt_d (n div 10) @ [digit_char (n mod 10)])"
  by pat_completeness auto
termination
  by (relation "measure id") auto

section \<open>The store (\<open>store.go\<close>)\<close>

text \<open>
  A store is a file with a buffered writer in front of it.  \<open>store_File\<close> is the
  content of the file, \<open>store_buf\<close> the bytes the \<open>bufio.Writer\<close> holds and has not
  written yet, \<open>store_size\<close> the field \<open>size\<close>.  The file system is taken to be
  reliable: a write to the buffer or to the file does not fail, so \<open>Append\<close> has no
  error result here; a read past the end of the file fails as \<open>File.ReadAt\<close> does.
\<close>

definition lenWidth :: nat where
  "lenWidth = 8"

record store =
  store_File :: "byte list"
  store_buf :: "byte list"
  store_size :: uint64

definition newStore :: "byte list \<Rightarrow> store" where
  "newStore f = \<lparr>store_File = f, store_buf = [], store_size = of_nat (length f)\<rparr>"

text \<open>
  \<open>Append\<close> returns \<open>(n, pos)\<close> and the store after the call: the position is the
  size before the call, the length prefix and the payload go to the buffer, the size
  grows by \<open>w = len(p) + lenWidth\<close>.
\<close>

definition store_Append :: "store \<Rightarrow> byte list \<Rightarrow> (uint64 \<times> uint64) \<times> store" where
  "store_Append s p =
     (let pos = store_size s;
          w = length p + lenWidth
      in ((of_nat w, pos),
          s\<lparr>store_buf := store_buf s @ PutUint64 (of_nat (length p)) @ p,
            store_size := store_size s + of_nat w\<rparr>))"

definition Flush :: "store \<Rightarrow> store" where
  "Flush s = s\<lparr>store_File := store_File s @ store_buf s, store_buf := []\<rparr>"

text \<open>
  \<open>File.ReadAt(b, off)\<close> with \<open>len(b) = n\<close>: a negative offset is an error, an empty
  \<open>b\<close> reads nothing, and fewer than \<open>n\<close> bytes before the end of the file is
  \<open>io.EOF\<close>.
\<close>

definition File_ReadAt :: "byte list \<Rightarrow> nat \<Rightarrow> int64 \<Rightarrow> error + byte list" where
  "File_ReadAt f n off =
     (if sint off < 0 then Inl (SyscallError ''negative offset'')
      else if n = 0 then Inr []
      else if unat off + n \<le> length f then Inr (take n (drop (unat off) f))
      else Inl EOF)"

definition store_Read :: "store \<Rightarrow> uint64 \<Rightarrow> (error + byte list) \<times> store" where
  "store_Read s pos =
     (let s' = Flush s in
      case File_ReadAt (store_File s') lenWidth pos of
        Inl e \<Rightarrow> (Inl e, s')
      | Inr sz \<Rightarrow>
          if sint (Uint64 sz) < 0 then (Inl (RuntimePanic ''makeslice: len out of range''), s')
          else (case File_ReadAt (store_File s') (unat (Uint64 sz)) (pos + of_nat lenWidth) of
                  Inl e \<Rightarrow> (Inl e, s')
                | Inr b \<Rightarrow> (Inr b, s')))"

text \<open>The appends of a list of payloads, one after the other, with what each returned.\<close>

fun store_Appends :: "store \<Rightarrow> byte list list \<Rightarrow> (uint64 \<times> uint64) list \<times> store" where
  "store_Appends s [] = ([], s)"
| "store_Appends s (p # ps) =
     (let (r, s') = store_Append s p;
          (rs, s'') = store_Appends s' ps
      in (r # rs, s''))"

text \<open>The bytes of a store: those on disk followed by those in the buffer.\<close>

definition store_bytes :: "store \<Rightarrow> byte list" where
  "store_bytes s = store_File s @ store_buf s"

definition frame :: "byte list \<Rightarrow> byte list" where
  "frame p = PutUint64 (of_nat (length p)) @ p"

text \<open>\<open>Close\<close> flushes the buffer and closes the file: the content of the file it leaves.\<close>

definition store_Close :: "store \<Rightarrow> byte list" where
  "store_Close s = store_File (Flush s)"

section \<open>The configuration\<close>

text \<open>
  Modelled from the spec: the declaration of the type \<open>Config\<close> of package \<open>log\<close> is
  not among the sources; the code reads \<open>c.Segment.MaxStoreBytes\<close>,
  \<open>c.Segment.MaxIndexBytes\<close> and \<open>c.Segment.InitialOffset\<close> and compares them with
  \<open>uint64\<close> values, and the spec lists the same three options.
\<close>

record Config =
  MaxStoreBytes :: uint64
  MaxIndexBytes :: uint64
  InitialOffset :: uint64

section \<open>The index (\<open>index.go\<close>)\<close>

text \<open>
  An index entry is a 4-byte relative offset followed by an 8-byte position in the
  store.  The index file is mapped into memory with \<open>MAP_SHARED\<close>, so the mapped bytes
  \<open>index_mmap\<close> are the content of the file; \<open>index_size\<close> is the field \<open>size\<close>.
\<close>

definition offWidth :: uint64 where
  "offWidth = 4"

definition posWidth :: uint64 where
  "posWidth = 8"

definition entWidth :: uint64 where
  "entWidth = offWidth + posWidth"

record index =
  index_mmap :: "byte list"
  index_size :: uint64

text \<open>
  \<open>newIndex\<close> on a file with content \<open>f\<close>: the size is the size of the file, then the
  file is truncated (cut or filled with zero bytes) to \<open>MaxIndexBytes\<close> and mapped.
  \<open>os.Truncate\<close> refuses a negative length (\<open>int64(MaxIndexBytes)\<close>), \<open>mmap\<close> a
  length of zero.
\<close>

definition newIndex :: "byte list \<Rightarrow> Config \<Rightarrow> error + index" where
  "newIndex f c =
     (let m = MaxIndexBytes c in
      if sint m < 0 then Inl (SyscallError ''truncate: invalid argument'')
      else if m = 0 then Inl (SyscallError ''mmap: invalid argument'')
      else Inr \<lparr>index_mmap = take (unat m) f @ replicate (unat m - length f) 0,
                index_size = of_nat (length f)\<rparr>)"

definition index_isMaxed :: "index \<Rightarrow> bool" where
  "index_isMaxed i \<longleftrightarrow> of_nat (length (index_mmap i)) < index_size i + entWidth"

text \<open>
  The slice expression \<open>m[a:b]\<close> with \<open>uint64\<close> bounds panics unless
  \<open>a \<le> b \<le> len(m)\<close>; \<open>slice_get\<close> reads it and \<open>slice_put\<close> overwrites it with
  \<open>v\<close>, which has \<open>b - a\<close> bytes.
\<close>

definition slice_get :: "byte list \<Rightarrow> uint64 \<Rightarrow> uint64 \<Rightarrow> error + byte list" where
  "slice_get m a b =
     (if unat a \<le> unat b \<and> unat b \<le> length m
      then Inr (take (unat b - unat a) (drop (unat a) m))
      else Inl (RuntimePanic ''slice bounds out of range''))"

definition slice_put :: "byte list \<Rightarrow> uint64 \<Rightarrow> uint64 \<Rightarrow> byte list \<Rightarrow> error + byte list" where
  "slice_put m a b v =
     (if unat a \<le> unat b \<and> unat b \<le> length m
      then Inr (take (unat a) m @ v @ drop (unat b) m)
      else Inl (RuntimePanic ''slice bounds out of range''))"

definition index_Write :: "index \<Rightarrow> uint32 \<Rightarrow> uint64 \<Rightarrow> error + index" where
  "index_Write i off pos =
     (if index_isMaxed i then Inl EOF
      else
        case slice_put (index_mmap i) (index_size i) (index_size i + offWidth) (PutUint32 off) of
          Inl e \<Rightarrow> Inl e
        | Inr m1 \<Rightarrow>
            (case slice_put m1 (index_size i + offWidth) (index_size i + entWidth) (PutUint64 pos) of
               Inl e \<Rightarrow> Inl e
             | Inr m2 \<Rightarrow> Inr (i\<lparr>index_mmap := m2, index_size := index_size i + entWidth\<rparr>)))"

text \<open>
  \<open>Read(in)\<close>: the argument is an \<open>int64\<close>; \<open>uint32(in)\<close> keeps its 32 low bits.
\<close>

definition index_Read :: "index \<Rightarrow> int64 \<Rightarrow> error + (uint32 \<times> uint64)" where
  "index_Read i inp =
     (if index_size i = 0 then Inl EOF
      else
        let out = (if inp = - 1 then ucast (index_size i div entWidth - 1) else ucast inp) :: uint32;
            pos = ucast out * entWidth
        in if index_size i < pos + entWidth then Inl EOF
           else
             case slice_get (index_mmap i) pos (pos + offWidth) of
               Inl e \<Rightarrow> Inl e
             | Inr b1 \<Rightarrow>
                 (case slice_get (index_mmap i) (pos + offWidth) (pos + entWidth) of
                    Inl e \<Rightarrow> Inl e
                  | Inr b2 \<Rightarrow> Inr (Uint32 b1, Uint64 b2)))"

text \<open>The writes of a list of entries, one after the other, stopping at the first error.\<close>

fun index_Writes :: "index \<Rightarrow> (uint32 \<times> uint64) list \<Rightarrow> error + index" where
  "index_Writes i [] = Inr i"
| "index_Writes i ((off, pos) # es) =
     (case index_Write i off pos of Inl e \<Rightarrow> Inl e | Inr i' \<Rightarrow> index_Writes i' es)"

definition entry :: "uint32 \<times> uint64 \<Rightarrow> byte list" where
  "entry e = PutUint32 (fst e) @ PutUint64 (snd e)"

text \<open>
  What an index holds: \<open>index_holds i es\<close> says that the entries \<open>es\<close> are the
  content of the first \<open>size\<close> bytes of the mapping, in order.  \<open>index_Read_at\<close> is
  the part of \<open>Read\<close> that follows the choice of the entry \<open>out\<close>.
\<close>

definition index_holds :: "index \<Rightarrow> (uint32 \<times> uint64) list \<Rightarrow> bool" where
  "index_holds i es \<longleftrightarrow>
     index_size i = of_nat (12 * length es)
     \<and> 12 * length es \<le> length (index_mmap i)
     \<and> length (index_mmap i) < 2 ^ 63
     \<and> take (12 * length es) (index_mmap i) = concat (map entry es)"

definition index_Read_at :: "index \<Rightarrow> uint32 \<Rightarrow> error + (uint32 \<times> uint64)" where
  "index_Read_at i out =
     (let pos = ucast out * entWidth
      in if index_size i < pos + entWidth then Inl EOF
         else
           case slice_get (index_mmap i) pos (pos + offWidth) of
             Inl e \<Rightarrow> Inl e
           | Inr b1 \<Rightarrow>
               (case slice_get (index_mmap i) (pos + offWidth) (pos + entWidth) of
                  Inl e \<Rightarrow> Inl e
                | Inr b2 \<Rightarrow> Inr (Uint32 b1, Uint64 b2)))"

text \<open>
  \<open>Read\<close> as the specification words it, on the list \<open>es\<close> of the entries written:
  end-of-data on an empty index or when entry \<open>i\<close> is out of range, the last entry for
  \<open>i = -1\<close>, entry \<open>i\<close> otherwise.
\<close>

definition spec_index_Read :: "(uint32 \<times> uint64) list \<Rightarrow> int64 \<Rightarrow> error + (uint32 \<times> uint64)" where
  "spec_index_Read es i =
     (if es = [] then Inl EOF
      else if i = - 1 then Inr (last es)
      else if \<not> sint i < 0 \<and> unat i < length es then Inr (es ! unat i)
      else Inl EOF)"

text \<open>
  \<open>Close\<close> unmaps and syncs the file, then truncates it to \<open>size\<close>, so that the last
  entry is at the end of the file: the result is the content of the file it leaves.
  \<open>File.Truncate\<close> refuses a negative length (\<open>int64(i.size)\<close>).
\<close>

definition index_Close :: "index \<Rightarrow> error + byte list" where
  "index_Close i =
     (if sint (index_size i) < 0 then Inl (SyscallError ''truncate: invalid argument'')
      else Inr (take (unat (index_size i)) (index_mmap i)
                @ replicate (unat (index_size i) - length (index_mmap i)) 0))"

section \<open>Records and their wire format\<close>

text \<open>
  Modelled from the spec: the type \<open>api.Record\<close> is generated from the protobuf
  definitions, which are not among the sources; the spec gives its fields as
  \<open>{ offset: u64, term: u64, type: u32, value: bytes }\<close>.

  \<open>proto.Marshal\<close> and \<open>proto.Unmarshal\<close> belong to the protobuf library.  The
  functions below take them as the parameters \<open>marshal\<close> (which may fail) and
  \<open>unmarshal\<close> (whose error \<open>segment.Read\<close> drops, so that it always yields a record).
\<close>

record Record =
  Value :: "byte list"
  Offset :: uint64
  Term :: uint64
  Type :: uint32

type_synonym marshaller = "Record \<Rightarrow> byte list option"
type_synonym unmarshaller = "byte list \<Rightarrow> Record"

section \<open>The segment (\<open>segment.go\<close>)\<close>

text \<open>
  A directory is the list of its files, each a name and a content.  \<open>OpenFile\<close> with
  \<open>O_CREATE\<close> yields the content of the file of that name, or the empty content of the
  file it creates.
\<close>

type_synonym dir = "(string \<times> byte list) list"

definition OpenFile :: "dir \<Rightarrow> string \<Rightarrow> byte list" where
  "OpenFile d name = (case map_of d name of None \<Rightarrow> [] | Some f \<Rightarrow> f)"

definition store_name :: "uint64 \<Rightarrow> string" where
  "store_name base = fmt_d (unat base) @ ''.store''"

definition index_name :: "uint64 \<Rightarrow> string" where
  "index_name base = fmt_d (unat base) @ ''.index''"

record segment =
  store :: store
  index :: index
  baseOffset :: uint64
  nextOffset :: uint64
  config :: Config

text \<open>
  \<open>newSegment\<close>: any error of \<open>index.Read(-1)\<close> makes \<open>nextOffset\<close> the base offset;
  a panic inside \<open>Read\<close> is not an error value and ends the call.
\<close>

definition newSegment :: "dir \<Rightarrow> uint64 \<Rightarrow> Config \<Rightarrow> error + segment" where
  "newSegment d base c =
     (let st = newStore (OpenFile d (store_name base)) in
      case newIndex (OpenFile d (index_name base)) c of
        Inl e \<Rightarrow> Inl e
      | Inr ix \<Rightarrow>
          (case index_Read ix (- 1) of
             Inl (RuntimePanic m) \<Rightarrow> Inl (RuntimePanic m)
           | Inl _ \<Rightarrow>
               Inr \<lparr>store = st, index = ix, baseOffset = base,
                    nextOffset = base, config = c\<rparr>
           | Inr (off, _) \<Rightarrow>
               Inr \<lparr>store = st, index = ix, baseOffset = base,
                    nextOffset = base + ucast off + 1, config = c\<rparr>))"

text \<open>
  \<open>Append\<close> writes \<open>record.Offset\<close> through the pointer it is given, so the record of
  the caller changes too: the model returns the result, the record after the call and
  the segment after the call.
\<close>

definition segment_Append ::
    "marshaller \<Rightarrow> segment \<Rightarrow> Record \<Rightarrow> (error + uint64) \<times> Record \<times> segment" where
  "segment_Append marshal s record =
     (let cur = nextOffset s;
          record' = record\<lparr>Offset := cur\<rparr>
      in case marshal record' of
           None \<Rightarrow> (Inl MarshalError, record', s)
         | Some p \<Rightarrow>
             (let ((n, pos), st) = store_Append (store s) p;
                  s1 = s\<lparr>store := st\<rparr>
              in case index_Write (index s1) (ucast (nextOffset s1 - baseOffset s1)) pos of
                   Inl e \<Rightarrow> (Inl e, record', s1)
                 | Inr ix \<Rightarrow>
                     (Inr cur, record', s1\<lparr>index := ix, nextOffset := nextOffset s1 + 1\<rparr>)))"

text \<open>\<open>Read\<close> flushes the buffer of the store, so it returns the segment as well.\<close>

definition segment_Read ::
    "unmarshaller \<Rightarrow> segment \<Rightarrow> uint64 \<Rightarrow> (error + Record) \<times> segment" where
  "segment_Read unmarshal s off =
     (case index_Read (index s) (off - baseOffset s) of
        Inl e \<Rightarrow> (Inl e, s)
      | Inr (_, pos) \<Rightarrow>
          (case store_Read (store s) pos of
             (Inl e, st) \<Rightarrow> (Inl e, s\<lparr>store := st\<rparr>)
           | (Inr b, st) \<Rightarrow> (Inr (unmarshal b), s\<lparr>store := st\<rparr>)))"

definition segment_isMaxed :: "segment \<Rightarrow> bool" where
  "segment_isMaxed s \<longleftrightarrow>
     store_size (store s) \<ge> MaxStoreBytes (config s)
     \<or> index_size (index s) \<ge> MaxIndexBytes (config s)
     \<or> index_isMaxed (index s)"

text \<open>\<open>Remove\<close> closes the segment and deletes its two files from the directory.\<close>

definition segment_Remove :: "dir \<Rightarrow> segment \<Rightarrow> dir" where
  "segment_Remove d s =
     filter (\<lambda>(name, _). name \<noteq> index_name (baseOffset s) \<and> name \<noteq> store_name (baseOffset s)) d"

text \<open>
  \<open>Close\<close> closes the index, then the store, and stops at the first error.
  \<open>WriteFile d name f\<close> is the directory \<open>d\<close> with \<open>f\<close> as the content of the file
  \<open>name\<close>; \<open>segment_Close d s\<close> gives the error, if any, and the directory with the two
  files as the call leaves them (after a failed \<open>index.Close\<close> the index file is the
  whole mapping and the buffer of the store is not written).
\<close>

definition WriteFile :: "dir \<Rightarrow> string \<Rightarrow> byte list \<Rightarrow> dir" where
  "WriteFile d name f = (name, f) # filter (\<lambda>(n, _). n \<noteq> name) d"

definition segment_Close :: "dir \<Rightarrow> segment \<Rightarrow> error option \<times> dir" where
  "segment_Close d s =
     (case index_Close (index s) of
        Inl e \<Rightarrow>
          (Some e, WriteFile (WriteFile d (index_name (baseOffset s)) (index_mmap (index s)))
                     (store_name (baseOffset s)) (store_File (store s)))
      | Inr f \<Rightarrow>
          (None, WriteFile (WriteFile d (index_name (baseOffset s)) f)
                   (store_name (baseOffset s)) (store_Close (store s))))"

text \<open>The appends of a list of records, one after the other, stopping at the first error.\<close>

fun segment_Appends :: "marshaller \<Rightarrow> segment \<Rightarrow> Record list \<Rightarrow> error + segment" where
  "segment_Appends m s [] = Inr s"
| "segment_Appends m s (r # rs) =
     (case segment_Append m s r of
        (Inl e, _, _) \<Rightarrow> Inl e
      | (Inr _, _, s') \<Rightarrow> segment_Appends m s' rs)"

text \<open>
  The relative offset of the last whole entry of an index file with content \<open>f\<close>.
\<close>

definition lastRelativeOffset :: "byte list \<Rightarrow> uint32" where
  "lastRelativeOffset f = Uint32 (take 4 (drop (12 * (length f div 12 - 1)) f))"

section \<open>Values for the examples\<close>

text \<open>
  A wire format for the examples, in place of protobuf: the three numbers in fixed width,
  then the value.  A configuration with room for three index entries, and a directory
  that holds a segment of base offset 16 with two records.
\<close>

definition example_marshal :: marshaller where
  "example_marshal r = Some (PutUint64 (Offset r) @ PutUint64 (Term r) @ PutUint32 (Type r) @ Value r)"

definition example_unmarshal :: unmarshaller where
  "example_unmarshal b =
     \<lparr>Value = drop 20 b, Offset = Uint64 (take 8 b), Term = Uint64 (take 8 (drop 8 b)),
      Type = Uint32 (take 4 (drop 16 b))\<rparr>"

definition example_config :: Config where
  "example_config = \<lparr>MaxStoreBytes = 64, MaxIndexBytes = 36, InitialOffset = 0\<rparr>"

definition example_dir :: dir where
  "example_dir =
     [(''16.index'', [0, 0, 0, 0, 0, 0, 0, 0, 0, 0, 0, 0, 0, 0, 0, 1, 0, 0, 0, 0, 0, 0, 0, 30]),
      (''16.store'',
         [0, 0, 0, 0, 0, 0, 0, 22,
          0, 0, 0, 0, 0, 0, 0, 16, 0, 0, 0, 0, 0, 0, 0, 0, 0, 0, 0, 0, 104, 105,
          0, 0, 0, 0, 0, 0, 0, 22,
          0, 0, 0, 0, 0, 0, 0, 17, 0, 0, 0, 0, 0, 0, 0, 0, 0, 0, 0, 0, 104, 111])]"

section \<open>The picker (\<open>picker.go\<close>)\<close>

text \<open>
  A \<open>balancer.SubConn\<close> is an interface value: \<open>None\<close> is \<open>nil\<close>, \<open>Some c\<close> the
  sub-connection \<open>c\<close>.  \<open>strings_Contains s substr\<close> is \<open>strings.Contains\<close>.
\<close>

type_synonym SubConn = "nat option"

record Picker =
  leader :: SubConn
  followers :: "SubConn list"
  current :: uint64

fun strings_Contains :: "string \<Rightarrow> string \<Rightarrow> bool" where
  "strings_Contains [] substr \<longleftrightarrow> substr = []"
| "strings_Contains (c # s) substr \<longleftrightarrow>
     take (length substr) (c # s) = substr \<or> strings_Contains s substr"

text \<open>
  \<open>nextFollower\<close> adds one to the counter (\<open>atomic.AddUint64\<close> returns the new value) and
  takes it modulo the number of followers; a modulus of zero is a panic of Go.
\<close>

definition nextFollower :: "Picker \<Rightarrow> (error + SubConn) \<times> Picker" where
  "nextFollower p =
     (let cur = current p + 1;
          len = of_nat (length (followers p)) :: uint64;
          p' = p\<lparr>current := cur\<rparr>
      in if len = 0 then (Inl (RuntimePanic ''integer divide by zero''), p')
         else (Inr (followers p ! unat (cur mod len)), p'))"

text \<open>
  \<open>Pick\<close> returns the chosen sub-connection, or the error \<open>ErrNoSubConnAvailable\<close> when
  the chosen sub-connection is \<open>nil\<close>, and the picker after the call.
\<close>

definition Pick_result :: "SubConn \<Rightarrow> error + SubConn" where
  "Pick_result sc = (if sc = None then Inl ErrNoSubConnAvailable else Inr sc)"

definition Pick :: "Picker \<Rightarrow> string \<Rightarrow> (error + SubConn) \<times> Picker" where
  "Pick p FullMethodName =
     (if strings_Contains FullMethodName ''Produce'' \<or> length (followers p) = 0
      then (Pick_result (leader p), p)
      else if strings_Contains FullMethodName ''Consume''
        then (case nextFollower p of
                (Inl e, p') \<Rightarrow> (Inl e, p')
              | (Inr sc, p') \<Rightarrow> (Pick_result sc, p'))
      else (Pick_result None, p))"

section \<open>Membership (\<open>membership.go\<close>)\<close>

text \<open>
  A member of a Serf event, with its name and its tag \<open>rpc_addr\<close>.  An event is a join, a
  leave or a failure of some members, or an event of another type, which the handler
  ignores.  The handler bound to the membership is called through the interface
  \<open>Handler\<close>; its errors are logged only, so the run of \<open>eventHandler\<close> over the events
  of the channel is the list of calls it makes, in order.
\<close>

record Member =
  Name :: string
  rpc_addr :: string

datatype Event =
    EventMemberJoin "Member list"
  | EventMemberLeave "Member list"
  | EventMemberFailed "Member list"
  | EventOther

datatype HandlerCall = Join string string | Leave string

text \<open>The loop over the members of a join event: a local member is skipped.\<close>

fun joinMembers :: "string \<Rightarrow> Member list \<Rightarrow> HandlerCall list" where
  "joinMembers localName [] = []"
| "joinMembers localName (m # ms) =
     (if Name m = localName then joinMembers localName ms
      else Join (Name m) (rpc_addr m) # joinMembers localName ms)"

text \<open>
  The loop over the members of a leave or failed event: at a local member the function
  \<open>eventHandler\<close> returns.  The result is the calls made and whether it returned.
\<close>

fun leaveMembers :: "string \<Rightarrow> Member list \<Rightarrow> HandlerCall list \<times> bool" where
  "leaveMembers localName [] = ([], False)"
| "leaveMembers localName (m # ms) =
     (if Name m = localName then ([], True)
      else (let (cs, returned) = leaveMembers localName ms in (Leave (Name m) # cs, returned)))"

fun eventHandler :: "string \<Rightarrow> Event list \<Rightarrow> HandlerCall list" where
  "eventHandler localName [] = []"
| "eventHandler localName (EventMemberJoin ms # es) =
     joinMembers localName ms @ eventHandler localName es"
| "eventHandler localName (EventMemberLeave ms # es) =
     (case leaveMembers localName ms of
        (cs, True) \<Rightarrow> cs
      | (cs, False) \<Rightarrow> cs @ eventHandler localName es)"
| "eventHandler localName (EventMemberFailed ms # es) =
     (case leaveMembers localName ms of
        (cs, True) \<Rightarrow> cs
      | (cs, False) \<Rightarrow> cs @ eventHandler localName es)"
| "eventHandler localName (EventOther # es) = eventHandler localName es"

text \<open>
  The dispatch as the specification words it: for each event, for each included member
  that is not the local node, one call; nothing else is skipped and the loop goes on.
\<close>

fun spec_event_calls :: "string \<Rightarrow> Event \<Rightarrow> HandlerCall list" where
  "spec_event_calls localName (EventMemberJoin ms) =
     map (\<lambda>m. Join (Name m) (rpc_addr m)) (filter (\<lambda>m. Name m \<noteq> localName) ms)"
| "spec_event_calls localName (EventMemberLeave ms) =
     map (\<lambda>m. Leave (Name m)) (filter (\<lambda>m. Name m \<noteq> localName) ms)"
| "spec_event_calls localName (EventMemberFailed ms) =
     map (\<lambda>m. Leave (Name m)) (filter (\<lambda>m. Name m \<noteq> localName) ms)"
| "spec_event_calls localName EventOther = []"

definition spec_dispatch :: "string \<Rightarrow> Event list \<Rightarrow> HandlerCall list" where
  "spec_dispatch localName es = concat (map (spec_event_calls localName) es)"

text \<open>An event that reports the leave or the failure of the local node itself.\<close>

definition leaves_local :: "string \<Rightarrow> Event \<Rightarrow> bool" where
  "leaves_local localName e =
     (case e of
        EventMemberLeave ms \<Rightarrow> localName \<in> set (map Name ms)
      | EventMemberFailed ms \<Rightarrow> localName \<in> set (map Name ms)
      | _ \<Rightarrow> False)"

section \<open>The log (\<open>log.go\<close>)\<close>

text \<open>
  The segments of a log are objects that the fields \<open>segments\<close> and \<open>activeSegment\<close>
  point to: an append through \<open>activeSegment\<close> is seen through \<open>segments\<close>.  The model
  keeps the segment objects in \<open>heap\<close>; a pointer is a position in it, and
  \<open>activeSegment\<close> is \<open>None\<close> while it is \<open>nil\<close>.  \<open>Dir\<close> is the content of the
  directory of the log as the calls of \<open>newSegment\<close> find it; the files of a segment
  that is open are held by the segment object.
\<close>

record Log =
  Dir :: dir
  Config :: Config
  heap :: "segment list"
  activeSegment :: "nat option"
  segments :: "nat list"

subsection \<open>Names of files\<close>

text \<open>
  \<open>path.Ext\<close> is the suffix of the last element of the path that starts at its last
  dot; \<open>strings.TrimSuffix\<close> removes a suffix that is there.  \<open>strconv.ParseUint(s, 10,
  0)\<close> returns 0 with a syntax error and the largest value with a range error; the
  method \<open>setup\<close> (here \<open>Log_setup\<close>) drops the error and keeps the number.
\<close>

definition path_Ext :: "string \<Rightarrow> string" where
  "path_Ext p =
     (let e = takeWhile (\<lambda>c. c \<noteq> CHR ''/'') (rev p)
      in if CHR ''.'' \<in> set e then CHR ''.'' # rev (takeWhile (\<lambda>c. c \<noteq> CHR ''.'') e) else [])"

definition TrimSuffix :: "string \<Rightarrow> string \<Rightarrow> string" where
  "TrimSuffix s suffix =
     (if length suffix \<le> length s \<and> drop (length s - length suffix) s = suffix
      then take (length s - length suffix) s else s)"

fun ParseUint_digits :: "nat \<Rightarrow> string \<Rightarrow> uint64" where
  "ParseUint_digits n [] = of_nat n"
| "ParseUint_digits n (c # cs) =
     (if 48 \<le> (of_char c :: nat) \<and> (of_char c :: nat) \<le> 57
      then (let n1 = n * 10 + (of_char c - 48)
            in if n1 \<ge> 2 ^ 64 then - 1 else ParseUint_digits n1 cs)
      else 0)"

definition ParseUint :: "string \<Rightarrow> uint64" where
  "ParseUint s = (if s = [] then 0 else ParseUint_digits 0 s)"

subsection \<open>Opening a log\<close>

definition Log_newSegment :: "Log \<Rightarrow> uint64 \<Rightarrow> error + Log" where
  "Log_newSegment l off =
     (case newSegment (Dir l) off (Config l) of
        Inl e \<Rightarrow> Inl e
      | Inr s \<Rightarrow>
          Inr (l\<lparr>heap := heap l @ [s],
                 segments := segments l @ [length (heap l)],
                 activeSegment := Some (length (heap l))\<rparr>))"

text \<open>
  The loop of \<open>setup\<close> over the sorted base offsets: each step opens a segment and then
  skips one more element, the duplicate that the second file of the segment made.
\<close>

fun setup_loop :: "uint64 list \<Rightarrow> Log \<Rightarrow> error + Log" where
  "setup_loop [] l = Inr l"
| "setup_loop (b # bs) l =
     (case Log_newSegment l b of
        Inl e \<Rightarrow> Inl e
      | Inr l' \<Rightarrow> setup_loop (drop 1 bs) l')"

definition Log_setup :: "Log \<Rightarrow> error + Log" where
  "Log_setup l =
     (let baseOffsets = sort (map (\<lambda>(name, _). ParseUint (TrimSuffix name (path_Ext name))) (Dir l))
      in case setup_loop baseOffsets l of
           Inl e \<Rightarrow> Inl e
         | Inr l' \<Rightarrow>
             if segments l' = [] then Log_newSegment l' (InitialOffset (Config l')) else Inr l')"

definition NewLog :: "dir \<Rightarrow> Config \<Rightarrow> error + Log" where
  "NewLog d c =
     (let c1 = (if MaxStoreBytes c = 0 then c\<lparr>MaxStoreBytes := 1024\<rparr> else c);
          c2 = (if MaxIndexBytes c1 = 0 then c1\<lparr>MaxIndexBytes := 1024\<rparr> else c1)
      in Log_setup \<lparr>Dir = d, Config = c2, heap = [], activeSegment = None, segments = []\<rparr>)"

subsection \<open>Offsets\<close>

text \<open>Indexing an empty slice is a panic of Go.\<close>

definition LowestOffset :: "Log \<Rightarrow> error + uint64" where
  "LowestOffset l =
     (case segments l of
        [] \<Rightarrow> Inl (RuntimePanic ''index out of range [0] with length 0'')
      | a # _ \<Rightarrow> Inr (baseOffset (heap l ! a)))"

definition highestOffset :: "Log \<Rightarrow> error + uint64" where
  "highestOffset l =
     (if segments l = [] then Inl (RuntimePanic ''index out of range [-1]'')
      else (let off = nextOffset (heap l ! last (segments l))
            in if off = 0 then Inr 0 else Inr (off - 1)))"

definition HighestOffset :: "Log \<Rightarrow> error + uint64" where
  "HighestOffset l = highestOffset l"

subsection \<open>Append and read\<close>

text \<open>
  \<open>Append\<close> returns the result, the record of the caller after the call and the log
  after the call.
\<close>

definition Log_Append :: "marshaller \<Rightarrow> Log \<Rightarrow> Record \<Rightarrow> (error + uint64) \<times> Record \<times> Log" where
  "Log_Append marshal l record =
     (case highestOffset l of
        Inl e \<Rightarrow> (Inl e, record, l)
      | Inr highest \<Rightarrow>
          (case activeSegment l of
             None \<Rightarrow> (Inl (RuntimePanic ''nil pointer dereference''), record, l)
           | Some a \<Rightarrow>
               (case (if segment_isMaxed (heap l ! a) then Log_newSegment l (highest + 1)
                      else Inr l) of
                  Inl e \<Rightarrow> (Inl e, record, l)
                | Inr l1 \<Rightarrow>
                    (case activeSegment l1 of
                       None \<Rightarrow> (Inl (RuntimePanic ''nil pointer dereference''), record, l1)
                     | Some a1 \<Rightarrow>
                         (let (res, record', s') = segment_Append marshal (heap l1 ! a1) record
                          in (res, record', l1\<lparr>heap := (heap l1)[a1 := s']\<rparr>))))))"

text \<open>
  \<open>Read\<close>: the first segment whose range holds the offset; without one, the error made
  by \<open>fmt.Errorf("offset out of range: %d", off)\<close>.
\<close>

definition offset_out_of_range :: "uint64 \<Rightarrow> error" where
  "offset_out_of_range off = ErrorString (''offset out of range: '' @ fmt_d (unat off))"

definition Log_Read :: "unmarshaller \<Rightarrow> Log \<Rightarrow> uint64 \<Rightarrow> (error + Record) \<times> Log" where
  "Log_Read unmarshal l off =
     (case find (\<lambda>a. baseOffset (heap l ! a) \<le> off \<and> off < nextOffset (heap l ! a))
             (segments l) of
        None \<Rightarrow> (Inl (offset_out_of_range off), l)
      | Some a \<Rightarrow>
          if nextOffset (heap l ! a) \<le> off then (Inl (offset_out_of_range off), l)
          else (let (res, s') = segment_Read unmarshal (heap l ! a) off
                in (res, l\<lparr>heap := (heap l)[a := s']\<rparr>)))"

subsection \<open>Truncate\<close>

text \<open>
  The loop of \<open>Truncate\<close> over the segments: a segment whose \<open>nextOffset\<close> is at most
  \<open>lowest + 1\<close> is removed (closed, its files deleted), any other is kept.  The loop
  carries the directory and the segments kept so far.
\<close>

fun Truncate_loop :: "segment list \<Rightarrow> uint64 \<Rightarrow> nat list \<Rightarrow> dir \<Rightarrow> nat list \<Rightarrow> dir \<times> nat list" where
  "Truncate_loop h lowest [] d kept = (d, kept)"
| "Truncate_loop h lowest (a # rest) d kept =
     (if nextOffset (h ! a) \<le> lowest + 1
      then Truncate_loop h lowest rest (segment_Remove d (h ! a)) kept
      else Truncate_loop h lowest rest d (kept @ [a]))"

definition Truncate :: "Log \<Rightarrow> uint64 \<Rightarrow> Log" where
  "Truncate l lowest =
     (let (d, kept) = Truncate_loop (heap l) lowest (segments l) (Dir l) []
      in l\<lparr>Dir := d, segments := kept\<rparr>)"

text \<open>The appends of a list of records, stopping at the first that fails.\<close>

fun Log_Appends :: "marshaller \<Rightarrow> Log \<Rightarrow> Record list \<Rightarrow> error + (uint64 list \<times> Log)" where
  "Log_Appends marshal l [] = Inr ([], l)"
| "Log_Appends marshal l (r # rs) =
     (case Log_Append marshal l r of
        (Inl e, _, _) \<Rightarrow> Inl e
      | (Inr off, _, l') \<Rightarrow>
          (case Log_Appends marshal l' rs of
             Inl e \<Rightarrow> Inl e
           | Inr (offs, l'') \<Rightarrow> Inr (off # offs, l'')))"

section \<open>The server (\<open>server.go\<close>)\<close>

text \<open>
  \<open>Consume\<close> asks the authorizer (its answer is the parameter \<open>auth\<close>, \<open>None\<close> when it
  allows the call) and reads the commit log.  One turn of the loop of \<open>ConsumeStream\<close>
  switches on the type of the error of \<open>Consume\<close>: no error sends the record and moves
  to the next offset, an \<open>api.ErrOffsetOutOfRange\<close> sleeps and tries again, any other
  error ends the stream with it.
\<close>

definition Consume :: "error option \<Rightarrow> unmarshaller \<Rightarrow> Log \<Rightarrow> uint64 \<Rightarrow> (error + Record) \<times> Log" where
  "Consume auth unmarshal l off =
     (case auth of
        Some e \<Rightarrow> (Inl e, l)
      | None \<Rightarrow> Log_Read unmarshal l off)"

datatype turn = Send Record uint64 | Retry | Return error

definition ConsumeStream_turn :: "error option \<Rightarrow> unmarshaller \<Rightarrow> Log \<Rightarrow> uint64 \<Rightarrow> turn" where
  "ConsumeStream_turn auth unmarshal l off =
     (case fst (Consume auth unmarshal l off) of
        Inr res \<Rightarrow> Send res (off + 1)
      | Inl (ErrOffsetOutOfRange _) \<Rightarrow> Retry
      | Inl e \<Rightarrow> Return e)"

section \<open>Logs for the examples\<close>

text \<open>
  \<open>example_log n\<close> is the log opened on an empty directory with \<open>example_config\<close>
  after \<open>n\<close> appends; its first segment takes three records.
\<close>

definition example_record :: "nat \<Rightarrow> Record" where
  "example_record v = \<lparr>Value = [of_nat v], Offset = 0, Term = 0, Type = 0\<rparr>"

definition example_log :: "nat \<Rightarrow> Log" where
  "example_log n =
     snd (projr (Log_Appends example_marshal (projr (NewLog [] example_config))
       (map example_record [0..<n])))"

text \<open>
  What a segment holds.  \<open>seg_inv marshal c s recs\<close>: the segment \<open>s\<close>, opened with
  the configuration \<open>c\<close>, holds the records \<open>recs\<close>: its store is the frames of their
  marshalled bytes, entry \<open>j\<close> of its index is \<open>j\<close> with the position of frame \<open>j\<close>,
  and \<open>nextOffset\<close> is the base offset plus their number.  \<open>config_ok\<close>: the
  configuration that \<open>NewLog\<close> leaves, with room for an index entry and a mapping that
  can be made.
\<close>

definition payloads :: "marshaller \<Rightarrow> Record list \<Rightarrow> byte list list" where
  "payloads m recs = map (\<lambda>r. the (m r)) recs"

definition seg_entries :: "byte list list \<Rightarrow> (uint32 \<times> uint64) list" where
  "seg_entries ps =
     map (\<lambda>j. (ucast (of_nat j :: uint64), of_nat (length (concat (map frame (take j ps))))))
       [0..<length ps]"

definition seg_inv :: "marshaller \<Rightarrow> Config \<Rightarrow> segment \<Rightarrow> Record list \<Rightarrow> bool" where
  "seg_inv m c s recs \<longleftrightarrow>
     config s = c
     \<and> nextOffset s = baseOffset s + of_nat (length recs)
     \<and> index_holds (index s) (seg_entries (payloads m recs))
     \<and> length (index_mmap (index s)) = unat (MaxIndexBytes c)
     \<and> store_bytes (store s) = concat (map frame (payloads m recs))
     \<and> store_size (store s) = of_nat (length (store_bytes (store s)))"

definition config_ok :: "Config \<Rightarrow> bool" where
  "config_ok c \<longleftrightarrow>
     MaxStoreBytes c \<noteq> 0 \<and> 12 \<le> unat (MaxIndexBytes c) \<and> unat (MaxIndexBytes c) < 2 ^ 63"

text \<open>
  What a log holds.  \<open>log_inv marshal c initial l chunks\<close>: the log was opened on an
  empty directory, its segments are the objects of the heap in order, the last is the
  active one, segment \<open>i\<close> holds the records \<open>chunks ! i\<close>, and its base offset is
  \<open>initial\<close> plus the number of records in the segments before it.
\<close>

definition log_inv :: "marshaller \<Rightarrow> Config \<Rightarrow> uint64 \<Rightarrow> Log \<Rightarrow> Record list list \<Rightarrow> bool" where
  "log_inv m c initial l chunks \<longleftrightarrow>
     Config l = c \<and> Dir l = [] \<and> chunks \<noteq> []
     \<and> length (heap l) = length chunks
     \<and> segments l = [0..<length chunks]
     \<and> activeSegment l = Some (length chunks - 1)
     \<and> (\<forall>i < length chunks.
          seg_inv m c (heap l ! i) (chunks ! i)
          \<and> baseOffset (heap l ! i) = initial + of_nat (length (concat (take i chunks))))"

text \<open>
  \<open>stamp off rs\<close> are the records \<open>rs\<close> with the offsets \<open>off\<close>, \<open>off + 1\<close>, ... set;
  \<open>offsets_from off n\<close> are these \<open>n\<close> offsets.
\<close>

fun stamp :: "uint64 \<Rightarrow> Record list \<Rightarrow> Record list" where
  "stamp off [] = []"
| "stamp off (r # rs) = r\<lparr>Offset := off\<rparr> # stamp (off + 1) rs"

fun offsets_from :: "uint64 \<Rightarrow> nat \<Rightarrow> uint64 list" where
  "offsets_from off 0 = []"
| "offsets_from off (Suc n) = off # offsets_from (off + 1) n"

text \<open>
  \<open>seg_indexed s es\<close>: the index of the segment \<open>s\<close> holds the entries \<open>es\<close>, entry
  \<open>j\<close> has the relative offset \<open>j\<close>, and \<open>nextOffset\<close> is the base offset plus their
  number.
\<close>

definition seg_indexed :: "segment \<Rightarrow> (uint32 \<times> uint64) list \<Rightarrow> bool" where
  "seg_indexed s es \<longleftrightarrow>
     index_holds (index s) es
     \<and> map fst es = map of_nat [0..<length es]
     \<and> nextOffset s = baseOffset s + of_nat (length es)"

section \<open>Big endian: the encoding can be read back\<close>

lemma length_be_bytes [simp]: "length (be_bytes n x) = n"
  by (induction n arbitrary: x) auto

lemma be_value_snoc: "be_value (bs @ [b]) = be_value bs * 256 + unat b"
  by (simp add: be_value_def)

lemma unat_byte_mod: "unat (of_nat (x mod 256) :: byte) = x mod 256"
  by (simp add: unat_of_nat)

lemma be_value_be_bytes: "be_value (be_bytes n x) = x mod 256 ^ n"
proof (induction n arbitrary: x)
  case 0
  then show ?case by (simp add: be_value_def)
next
  case (Suc n)
  have "be_value (be_bytes (Suc n) x) = (x div 256) mod 256 ^ n * 256 + x mod 256"
    by (simp add: be_value_snoc Suc unat_byte_mod)
  also have "\<dots> = x mod 256 ^ Suc n"
    by (simp add: mod_mult2_eq)
  finally show ?case .
qed

lemma Uint32_PutUint32 [simp]: "Uint32 (PutUint32 v) = v"
proof -
  have "unat v < 256 ^ 4" using unsigned_less [of v, where 'a = nat] by simp
  then show ?thesis by (simp add: Uint32_def PutUint32_def be_value_be_bytes)
qed

lemma Uint64_PutUint64 [simp]: "Uint64 (PutUint64 v) = v"
proof -
  have "unat v < 256 ^ 8" using unsigned_less [of v, where 'a = nat] by simp
  then show ?thesis by (simp add: Uint64_def PutUint64_def be_value_be_bytes)
qed

lemma unat_of_nat64: "n < 2 ^ 64 \<Longrightarrow> unat (of_nat n :: uint64) = n"
  by (simp add: unat_of_nat)

lemma length_PutUint32 [simp]: "length (PutUint32 v) = 4"
  by (simp add: PutUint32_def)

lemma length_PutUint64 [simp]: "length (PutUint64 v) = 8"
  by (simp add: PutUint64_def)

lemma length_frame [simp]: "length (frame p) = 8 + length p"
  by (simp add: frame_def)

section \<open>The store: what an append returns, and the size\<close>

lemma store_Append_result:
  "fst (store_Append s p) = (of_nat (8 + length p), store_size s)"
  by (simp add: store_Append_def lenWidth_def Let_def add.commute)

lemma store_Append_bytes:
  "store_bytes (snd (store_Append s p)) = store_bytes s @ frame p"
  by (simp add: store_Append_def store_bytes_def frame_def Let_def)

lemma store_Append_size:
  "store_size (snd (store_Append s p)) = store_size s + of_nat (8 + length p)"
  by (simp add: store_Append_def lenWidth_def Let_def add.commute)

lemma store_Appends_bytes:
  "store_bytes (snd (store_Appends s ps)) = store_bytes s @ concat (map frame ps)"
proof (induction ps arbitrary: s)
  case Nil
  then show ?case by simp
next
  case (Cons p ps)
  have "store_bytes (snd (store_Appends s (p # ps)))
          = store_bytes (snd (store_Appends (snd (store_Append s p)) ps))"
    by (simp add: split_beta Let_def)
  then show ?case by (simp add: Cons store_Append_bytes)
qed

lemma store_Appends_size:
  "store_size (snd (store_Appends s ps))
     = store_size s + of_nat (sum_list (map (\<lambda>p. 8 + length p) ps))"
proof (induction ps arbitrary: s)
  case Nil
  then show ?case by simp
next
  case (Cons p ps)
  have "store_size (snd (store_Appends s (p # ps)))
          = store_size (snd (store_Appends (snd (store_Append s p)) ps))"
    by (simp add: split_beta Let_def)
  then show ?case by (simp add: Cons store_Append_size add.assoc)
qed

text \<open>
  C5.  \<open>store.Append(p)\<close> returns \<open>8 + len(p)\<close> as the number of bytes written and the
  size of the store before the call as the position; after any sequence of appends to a
  store opened on an empty file, the size is the sum of \<open>8 + len(p)\<close> over the payloads
  appended, which is also the number of bytes on disk plus the number of bytes in the
  buffer.  (The numbers are read as natural numbers, as long as they fit 64 bits.)
\<close>

theorem store_Append_size_invariant:
  "(8 + length p < 2 ^ 64 \<longrightarrow>
      (case store_Append s p of
         ((n, pos), s') \<Rightarrow> unat n = 8 + length p \<and> pos = store_size s))
   \<and> ((\<Sum>p\<leftarrow>ps. 8 + length p) < 2 ^ 64 \<longrightarrow>
      (case store_Appends (newStore []) ps of
         (rs, s') \<Rightarrow>
           unat (store_size s') = (\<Sum>p\<leftarrow>ps. 8 + length p)
           \<and> length (store_File s') + length (store_buf s') = (\<Sum>p\<leftarrow>ps. 8 + length p)))"
proof (intro conjI impI)
  assume "8 + length p < 2 ^ 64"
  then have "unat (of_nat (8 + length p) :: uint64) = 8 + length p"
    by (rule unat_of_nat64)
  then show "case store_Append s p of
      ((n, pos), s') \<Rightarrow> unat n = 8 + length p \<and> pos = store_size s"
    using store_Append_result [of s p] by (auto simp: split_beta)
next
  let ?t = "\<Sum>p\<leftarrow>ps. 8 + length p"
  let ?s = "snd (store_Appends (newStore []) ps)"
  assume "?t < 2 ^ 64"
  then have "unat (of_nat ?t :: uint64) = ?t"
    by (rule unat_of_nat64)
  moreover have "store_size ?s = of_nat ?t"
    using store_Appends_size [of "newStore []" ps] by (simp add: newStore_def)
  moreover have "length (store_bytes ?s) = ?t"
    using store_Appends_bytes [of "newStore []" ps]
    by (simp add: newStore_def store_bytes_def length_concat comp_def)
  ultimately show "case store_Appends (newStore []) ps of
      (rs, s') \<Rightarrow> unat (store_size s') = ?t
        \<and> length (store_File s') + length (store_buf s') = ?t"
    by (simp add: split_beta store_bytes_def)
qed

theorem store_Append_size_invariant_witness:
  "(case store_Append (newStore [7, 7]) [1, 2, 3] of
      ((n, pos), s') \<Rightarrow> unat n = 11 \<and> pos = 2)
   \<and> (case store_Appends (newStore []) [[1], [2, 3]] of
         (rs, s') \<Rightarrow> unat (store_size s') = 19
           \<and> length (store_File s') + length (store_buf s') = 19)"
  using store_Append_size_invariant [of "[1, 2, 3]" "newStore [7, 7]" "[[1], [2, 3]]"]
  by (simp add: newStore_def)

section \<open>Words as natural numbers\<close>

lemma sint_uint64: "sint (w :: uint64) = (if uint w < 2 ^ 63 then uint w else uint w - 2 ^ 64)"
proof -
  define h :: int where "h = 2 ^ 63"
  have h2: "(2::int) ^ 64 = h + h" by (simp add: h_def)
  have s: "sint w = (uint w + h) mod (h + h) - h"
    using int_word_sint [of "uint w", where 'a = 64] by (simp add: h_def)
  have b: "0 \<le> uint w" "uint w < h + h"
    using uint_lt2p [of w] by (simp_all add: h_def)
  have hp: "0 < h" by (simp add: h_def)
  show ?thesis
  proof (cases "uint w < h")
    case True
    then have "(uint w + h) mod (h + h) = uint w + h"
      using b hp by (intro mod_pos_pos_trivial) linarith+
    then show ?thesis using s True unfolding h2 h_def [symmetric] by simp
  next
    case False
    have "(uint w + h) mod (h + h) = (uint w + h - (h + h)) mod (h + h)"
      by (metis mod_add_self2 diff_add_cancel)
    also have "\<dots> = uint w + h - (h + h)"
      using b hp False by (intro mod_pos_pos_trivial) linarith+
    finally show ?thesis using s False unfolding h2 h_def [symmetric] by simp
  qed
qed

lemma sint_neg_iff: "sint (w :: uint64) < 0 \<longleftrightarrow> \<not> unat w < 2 ^ 63"
proof -
  define h :: int where "h = 2 ^ 63"
  define n :: nat where "n = 2 ^ 63"
  have nh: "int n = h" by (simp add: n_def h_def)
  have h2: "(2::int) ^ 64 = h + h" by (simp add: h_def)
  have b: "uint w < h + h" "0 \<le> uint w" using uint_lt2p [of w] by (simp_all add: h_def)
  have "int (unat w) = uint w" by simp
  then have u: "unat w < n \<longleftrightarrow> uint w < h"
    using nh by linarith
  have "sint w = (if uint w < h then uint w else uint w - (h + h))"
    using sint_uint64 [of w] unfolding h2 h_def [symmetric] .
  then show ?thesis unfolding n_def [symmetric] u using b by (auto split: if_splits)
qed


section \<open>The index: entries written are the entries read\<close>

lemma length_entry [simp]: "length (entry e) = 12"
  by (simp add: entry_def)

lemma length_concat_entries [simp]: "length (concat (map entry es)) = 12 * length es"
  by (induction es) auto

lemma drop_concat_entries:
  "drop (12 * k) (concat (map entry es)) = concat (map entry (drop k es))"
proof (induction es arbitrary: k)
  case Nil
  then show ?case by simp
next
  case (Cons e es)
  show ?case
  proof (cases k)
    case 0
    then show ?thesis by simp
  next
    case (Suc j)
    then show ?thesis using Cons [of j] by simp
  qed
qed

lemma entWidth_12: "entWidth = 12"
  by (simp add: entWidth_def offWidth_def posWidth_def)

lemma newIndex_holds: "newIndex [] c = Inr i \<Longrightarrow> index_holds i []"
  by (auto simp: newIndex_def index_holds_def Let_def sint_neg_iff split: if_splits)

lemma unat_add_small:
  "unat (a :: uint64) < 2 ^ 63 \<Longrightarrow> k < 2 ^ 63 \<Longrightarrow> unat (a + of_nat k) = unat a + k"
proof -
  assume a: "unat a < 2 ^ 63" and k: "k < 2 ^ 63"
  have "(2::nat) ^ 64 = 2 ^ 63 + 2 ^ 63" by simp
  then have k64: "k < 2 ^ 64" using k by linarith
  have uk: "unat (of_nat k :: uint64) = k" using k64 by (rule unat_of_nat64)
  have "unat a + unat (of_nat k :: uint64) < 2 ^ LENGTH(64)"
    using a k uk by simp
  then have "unat (a + of_nat k) = unat a + unat (of_nat k :: uint64)"
    by (simp only: unat_add_lem)
  then show ?thesis using uk by simp
qed

lemma index_holds_unat_size:
  assumes "index_holds i es"
  shows "unat (index_size i) = 12 * length es"
proof -
  have e: "index_size i = of_nat (12 * length es)"
    and l: "12 * length es \<le> length (index_mmap i)" "length (index_mmap i) < 2 ^ 63"
    using assms unfolding index_holds_def by blast+
  have "12 * length es < 2 ^ 64" using l by simp
  then show ?thesis unfolding e by (rule unat_of_nat64)
qed

lemma index_isMaxed_nat:
  assumes "index_holds i es"
  shows "index_isMaxed i \<longleftrightarrow> length (index_mmap i) < 12 * length es + 12"
proof -
  have s: "unat (index_size i) = 12 * length es" using assms by (rule index_holds_unat_size)
  have l: "length (index_mmap i) < 2 ^ 63" "12 * length es \<le> length (index_mmap i)"
    using assms by (simp_all add: index_holds_def)
  have "unat (index_size i + of_nat 12) = unat (index_size i) + 12"
    using s l by (intro unat_add_small) simp_all
  moreover have "unat (of_nat (length (index_mmap i)) :: uint64) = length (index_mmap i)"
    using l by (intro unat_of_nat64) simp
  ultimately show ?thesis
    using s by (simp add: index_isMaxed_def entWidth_12 word_less_nat_alt)
qed

lemma unat_add_4: "unat (a :: uint64) < 2 ^ 63 \<Longrightarrow> unat (a + 4) = unat a + 4"
  using unat_add_small [of a 4] by simp

lemma unat_add_8: "unat (a :: uint64) < 2 ^ 63 \<Longrightarrow> unat (a + 8) = unat a + 8"
  using unat_add_small [of a 8] by simp

lemma unat_add_12: "unat (a :: uint64) < 2 ^ 63 \<Longrightarrow> unat (a + 12) = unat a + 12"
  using unat_add_small [of a 12] by simp

lemma index_isMaxed_iff:
  assumes "unat (index_size i) < 2 ^ 63" "length (index_mmap i) < 2 ^ 63"
  shows "index_isMaxed i \<longleftrightarrow> length (index_mmap i) < unat (index_size i) + 12"
proof -
  have "unat (of_nat (length (index_mmap i)) :: uint64) = length (index_mmap i)"
    using assms(2) by (intro unat_of_nat64) simp
  then show ?thesis
    using assms(1) by (simp add: index_isMaxed_def entWidth_12 word_less_nat_alt unat_add_12)
qed

lemma index_Write_eq:
  assumes "unat (index_size i) < 2 ^ 63" "length (index_mmap i) < 2 ^ 63"
  shows "index_Write i off pos =
    (if length (index_mmap i) < unat (index_size i) + 12 then Inl EOF
     else Inr \<lparr>index_mmap = take (unat (index_size i)) (index_mmap i) @ entry (off, pos)
                   @ drop (unat (index_size i) + 12) (index_mmap i),
               index_size = index_size i + 12\<rparr>)"
proof (cases "length (index_mmap i) < unat (index_size i) + 12")
  case True
  then show ?thesis using assms by (simp add: index_Write_def index_isMaxed_iff)
next
  case False
  let ?n = "unat (index_size i)" and ?m = "index_mmap i"
  have n: "?n + 12 \<le> length ?m" using False by simp
  have p1: "slice_put ?m (index_size i) (index_size i + 4) (PutUint32 off)
      = Inr (take ?n ?m @ PutUint32 off @ drop (?n + 4) ?m)"
    using n assms by (simp add: slice_put_def unat_add_4)
  have d: "drop (?n + 12) (take ?n ?m @ PutUint32 off @ drop (?n + 4) ?m) = drop (?n + 12) ?m"
    using n by (simp add: add.commute)
  have t: "take (?n + 4) (take ?n ?m @ PutUint32 off @ drop (?n + 4) ?m)
      = take ?n ?m @ PutUint32 off"
    using n by simp
  have p2: "slice_put (take ?n ?m @ PutUint32 off @ drop (?n + 4) ?m)
        (index_size i + 4) (index_size i + 12) (PutUint64 pos)
      = Inr (take ?n ?m @ PutUint32 off @ PutUint64 pos @ drop (?n + 12) ?m)"
    using n assms unfolding slice_put_def unat_add_4 [OF assms(1)] unat_add_12 [OF assms(1)] d t
    by simp
  have nm: "\<not> index_isMaxed i"
    using False assms by (simp add: index_isMaxed_iff)
  show ?thesis
    unfolding index_Write_def offWidth_def entWidth_12 using nm False
    by (simp add: p1 p2 entry_def)
qed

lemma index_holds_bounds:
  assumes "index_holds i es"
  shows "unat (index_size i) < 2 ^ 63" "length (index_mmap i) < 2 ^ 63"
    "12 * length es \<le> length (index_mmap i)"
    "take (12 * length es) (index_mmap i) = concat (map entry es)"
  using assms index_holds_unat_size [OF assms] by (simp_all add: index_holds_def)

lemma index_Write_holds:
  assumes h: "index_holds i es" and w: "index_Write i off pos = Inr i'"
  shows "index_holds i' (es @ [(off, pos)])"
proof -
  let ?n = "12 * length es" and ?m = "index_mmap i"
  note b = index_holds_bounds [OF h]
  have u: "unat (index_size i) = ?n" using h by (rule index_holds_unat_size)
  have eq: "index_Write i off pos =
    (if length ?m < ?n + 12 then Inl EOF
     else Inr \<lparr>index_mmap = take ?n ?m @ entry (off, pos) @ drop (?n + 12) ?m,
               index_size = index_size i + 12\<rparr>)"
    using index_Write_eq [OF b(1) b(2), of off pos] unfolding u .
  then have fits: "?n + 12 \<le> length ?m"
    using w by (auto split: if_splits)
  have i': "i' = \<lparr>index_mmap = take ?n ?m @ entry (off, pos) @ drop (?n + 12) ?m,
               index_size = index_size i + 12\<rparr>"
    using eq w fits by simp
  have sz: "index_size i = of_nat ?n"
    using h unfolding index_holds_def by blast
  have s1: "index_size i' = of_nat (12 * length (es @ [(off, pos)]))"
    unfolding i' sz by simp
  have s2: "12 * length (es @ [(off, pos)]) \<le> length (index_mmap i')"
    unfolding i' using fits by simp
  have s3: "length (index_mmap i') < 2 ^ 63"
    unfolding i' using fits b(2) by simp
  have s4: "take (12 * length (es @ [(off, pos)])) (index_mmap i')
      = concat (map entry (es @ [(off, pos)]))"
    unfolding i' using fits b(4) by simp
  show ?thesis
    unfolding index_holds_def using s1 s2 s3 s4 by blast
qed

lemma index_Writes_holds:
  "index_holds i es \<Longrightarrow> index_Writes i es' = Inr i' \<Longrightarrow> index_holds i' (es @ es')"
proof (induction es' arbitrary: i es)
  case Nil
  then show ?case by simp
next
  case (Cons e es')
  obtain off pos where e: "e = (off, pos)" by (cases e)
  from Cons.prems(2) obtain i1 where w: "index_Write i off pos = Inr i1"
    and ws: "index_Writes i1 es' = Inr i'"
    unfolding e by (auto split: sum.splits)
  have "index_holds i1 (es @ [(off, pos)])"
    using Cons.prems(1) w by (rule index_Write_holds)
  then have "index_holds i' ((es @ [(off, pos)]) @ es')"
    using ws by (rule Cons.IH)
  then show ?case unfolding e by simp
qed


lemma unat_ucast_32_64: "unat (ucast (w :: uint32) :: uint64) = unat w"
proof -
  have "unat w < 2 ^ 32" using unsigned_less [of w, where 'a = nat] by simp
  then have "unat w < 2 ^ 64" by (rule less_le_trans) simp
  then show ?thesis
    by (simp add: unsigned_ucast_eq take_bit_nat_eq_self_iff)
qed

lemma unat_ucast_64_32: "unat (ucast (w :: uint64) :: uint32) = unat w mod 2 ^ 32"
  by (simp add: unsigned_ucast_eq take_bit_eq_mod)

lemma unat_entry_pos: "unat (ucast (out :: uint32) * entWidth :: uint64) = 12 * unat out"
proof -
  have b: "unat out < 2 ^ 32" using unsigned_less [of out, where 'a = nat] by simp
  have "unat out * 12 < 2 ^ 32 * 12" using b by simp
  also have "\<dots> < (2::nat) ^ 64" by simp
  finally have "unat (ucast out :: uint64) * unat (12 :: uint64) < 2 ^ LENGTH(64)"
    by (simp add: unat_ucast_32_64)
  then have "unat (ucast out * 12 :: uint64) = unat (ucast out :: uint64) * unat (12 :: uint64)"
    by (simp only: unat_mult_lem)
  then show ?thesis by (simp add: entWidth_12 unat_ucast_32_64)
qed

lemma entry_bytes:
  assumes "index_holds i es" "k < length es"
  shows "take 12 (drop (12 * k) (index_mmap i)) = entry (es ! k)"
proof -
  note b = index_holds_bounds [OF assms(1)]
  have le: "12 * k + 12 \<le> 12 * length es" using assms(2) by simp
  have "take 12 (drop (12 * k) (index_mmap i))
      = take 12 (drop (12 * k) (take (12 * length es) (index_mmap i)))"
    using le by (simp add: drop_take)
  also have "\<dots> = take 12 (concat (map entry (drop k es)))"
    unfolding b(4) drop_concat_entries ..
  also have "\<dots> = entry (es ! k)"
    using assms(2) by (simp flip: Cons_nth_drop_Suc)
  finally show ?thesis .
qed

lemma slice_get_entry:
  assumes "index_holds i es" "k < length es" "unat (pos :: uint64) = 12 * k"
  shows "slice_get (index_mmap i) pos (pos + offWidth) = Inr (PutUint32 (fst (es ! k)))"
    and "slice_get (index_mmap i) (pos + offWidth) (pos + entWidth) = Inr (PutUint64 (snd (es ! k)))"
proof -
  note b = index_holds_bounds [OF assms(1)]
  have le: "12 * k + 12 \<le> length (index_mmap i)" using assms(2) b(3) by simp
  have p: "unat pos < 2 ^ 63" using le b(2) assms(3) by simp
  have e: "take 12 (drop (12 * k) (index_mmap i)) = PutUint32 (fst (es ! k)) @ PutUint64 (snd (es ! k))"
    using entry_bytes [OF assms(1,2)] by (simp add: entry_def)
  have "take 4 (drop (12 * k) (index_mmap i)) = take 4 (take 12 (drop (12 * k) (index_mmap i)))"
    by simp
  also have "\<dots> = PutUint32 (fst (es ! k))" unfolding e by simp
  finally have t4: "take 4 (drop (12 * k) (index_mmap i)) = PutUint32 (fst (es ! k))" .
  have "take 8 (drop (12 * k + 4) (index_mmap i))
      = take 8 (drop 4 (take 12 (drop (12 * k) (index_mmap i))))"
    by (simp add: drop_take add.commute)
  also have "\<dots> = PutUint64 (snd (es ! k))" unfolding e by simp
  finally have t8: "take 8 (drop (12 * k + 4) (index_mmap i)) = PutUint64 (snd (es ! k))" .
  show "slice_get (index_mmap i) pos (pos + offWidth) = Inr (PutUint32 (fst (es ! k)))"
    unfolding slice_get_def offWidth_def unat_add_4 [OF p] assms(3) using le t4 by simp
  show "slice_get (index_mmap i) (pos + offWidth) (pos + entWidth) = Inr (PutUint64 (snd (es ! k)))"
    unfolding slice_get_def offWidth_def entWidth_12 unat_add_4 [OF p] unat_add_12 [OF p] assms(3)
    using le t8 by simp
qed

lemma index_Read_unfold:
  "index_Read i inp =
     (if index_size i = 0 then Inl EOF
      else index_Read_at i (if inp = - 1 then ucast (index_size i div entWidth - 1) else ucast inp))"
  by (simp add: index_Read_def index_Read_at_def Let_def)

lemma index_Read_at_holds:
  assumes h: "index_holds i es"
  shows "index_Read_at i out =
    (if unat out < length es then Inr (es ! unat out) else Inl EOF)"
proof -
  let ?k = "unat out" and ?pos = "ucast out * entWidth :: uint64"
  note b = index_holds_bounds [OF h]
  have u: "unat (index_size i) = 12 * length es" using h by (rule index_holds_unat_size)
  have p: "unat ?pos = 12 * ?k" by (rule unat_entry_pos)
  have "?k < 2 ^ 32" using unsigned_less [of out, where 'a = nat] by simp
  then have "12 * ?k < 12 * 2 ^ 32" by simp
  also have "\<dots> < (2::nat) ^ 63" by simp
  finally have p63: "unat ?pos < 2 ^ 63" unfolding p .
  have a: "unat (?pos + 12) = 12 * ?k + 12"
    using unat_add_12 [OF p63] p by simp
  have lt: "index_size i < ?pos + entWidth \<longleftrightarrow> \<not> ?k < length es"
    unfolding word_less_nat_alt u a [unfolded entWidth_12] entWidth_12
    by auto
  show ?thesis
  proof (cases "?k < length es")
    case True
    note sl = slice_get_entry [OF h True p]
    show ?thesis
      unfolding index_Read_at_def Let_def using True lt by (simp add: sl)
  next
    case False
    then show ?thesis
      unfolding index_Read_at_def Let_def using lt by simp
  qed
qed

lemma index_last_out:
  assumes h: "index_holds i es" and ne: "es \<noteq> []" and n: "length es \<le> 2 ^ 32"
  shows "unat (ucast (index_size i div entWidth - 1) :: uint32) = length es - 1"
proof -
  have u: "unat (index_size i) = 12 * length es" using h by (rule index_holds_unat_size)
  have d: "unat (index_size i div entWidth) = length es"
    unfolding unat_div u entWidth_12 by simp
  have nz: "index_size i div entWidth \<noteq> 0"
    using d ne by (metis length_0_conv unat_0_iff)
  have "unat (index_size i div entWidth - 1) = length es - 1"
    using unat_minus_one [OF nz] d by simp
  moreover have "length es - 1 < 2 ^ 32" using n ne by (cases es) simp_all
  ultimately show ?thesis by (simp add: unat_ucast_64_32)
qed

lemma index_Read_holds:
  assumes h: "index_holds i es" and n: "length es \<le> 2 ^ 32"
  shows "index_Read i inp =
    (if es = [] then Inl EOF
     else if inp = - 1 then Inr (last es)
     else if unat (ucast inp :: uint32) < length es then Inr (es ! unat (ucast inp :: uint32))
     else Inl EOF)"
proof (cases "es = []")
  case True
  then have "index_size i = 0" using h by (simp add: index_holds_def)
  then show ?thesis using True by (simp add: index_Read_unfold)
next
  case False
  have u: "unat (index_size i) = 12 * length es" using h by (rule index_holds_unat_size)
  have nz: "index_size i \<noteq> 0"
    using u False by (metis length_0_conv mult_eq_0_iff unat_0_iff zero_neq_numeral)
  show ?thesis
  proof (cases "inp = - 1")
    case True
    have "index_Read i inp = index_Read_at i (ucast (index_size i div entWidth - 1))"
      using nz True by (simp add: index_Read_unfold)
    also have "\<dots> = Inr (es ! (length es - 1))"
      unfolding index_Read_at_holds [OF h] index_last_out [OF h False n] using False by simp
    finally show ?thesis using False True by (simp add: last_conv_nth)
  next
    case neq: False
    have "index_Read i inp = index_Read_at i (ucast inp)"
      using nz neq by (simp add: index_Read_unfold)
    then show ?thesis using False neq by (simp add: index_Read_at_holds [OF h])
  qed
qed



section \<open>The index: bounds of \<open>Write\<close> and \<open>Read\<close>\<close>

text \<open>
  \<open>Write(off, pos)\<close> fails with end-of-data exactly when \<open>size + 12\<close> exceeds the
  length of the mapping, and otherwise writes the 4-byte offset and the 8-byte position
  at \<open>size\<close> and advances \<open>size\<close> by 12 (sizes below \<open>2\<^sup>6\<^sup>3\<close>, as file sizes are).
\<close>

lemma index_Write_bounds:
  assumes "unat (index_size i) < 2 ^ 63" "length (index_mmap i) < 2 ^ 63"
  shows "index_Write i off pos =
        (if length (index_mmap i) < unat (index_size i) + 12 then Inl EOF
         else Inr \<lparr>index_mmap = take (unat (index_size i)) (index_mmap i)
                       @ PutUint32 off @ PutUint64 pos
                       @ drop (unat (index_size i) + 12) (index_mmap i),
                   index_size = index_size i + 12\<rparr>)"
  using index_Write_eq [OF assms, of off pos] by (simp add: entry_def)

text \<open>
  On an index that holds the entries \<open>es\<close> (at most \<open>2\<^sup>3\<^sup>2\<close>, the width of a relative
  offset), \<open>Read(i)\<close> is the \<open>Read\<close> of the specification for \<open>i = -1\<close> and for every
  entry number \<open>0 \<le> i < 2\<^sup>3\<^sup>2\<close>.
\<close>

lemma index_Read_in_range:
  assumes h: "index_holds i es" and n: "length es \<le> 2 ^ 32"
    and r: "inp = - 1 \<or> unat inp < 2 ^ 32"
  shows "index_Read i inp = spec_index_Read es inp"
proof (cases "inp = - 1")
  case True
  then show ?thesis
    unfolding index_Read_holds [OF h n] spec_index_Read_def by simp
next
  case False
  then have u: "unat inp < 2 ^ 32" using r by blast
  have "(2::nat) ^ 32 < 2 ^ 63" by simp
  then have "unat inp < 2 ^ 63" using u by (rule less_trans [rotated])
  then have s: "\<not> sint inp < 0" unfolding sint_neg_iff by blast
  have c: "unat (ucast inp :: uint32) = unat inp"
    unfolding unat_ucast_64_32 using u by simp
  show ?thesis
    unfolding index_Read_holds [OF h n] spec_index_Read_def c using s by simp
qed

text \<open>
  C6 asks that \<open>Read(i)\<close> returns end-of-data when entry \<open>i\<close> is out of range of the
  written entries.  \<open>Read\<close> compares with \<open>size\<close> to that end, but only after the
  conversion \<open>uint32(in)\<close> of its \<open>int64\<close> argument: on the index that \<open>newIndex\<close>
  makes of an empty file and \<open>Write(0, 17)\<close> fills with one entry, \<open>Read(2\<^sup>3\<^sup>2)\<close>
  returns entry 0, where the \<open>Read\<close> of the specification, and the code itself for
  \<open>Read(1)\<close>, return end-of-data.
\<close>

theorem index_Read_past_uint32:
  "newIndex [] \<lparr>MaxStoreBytes = 1024, MaxIndexBytes = 24, InitialOffset = 0\<rparr>
     = Inr \<lparr>index_mmap = replicate 24 0, index_size = 0\<rparr>
   \<and> index_Write \<lparr>index_mmap = replicate 24 0, index_size = 0\<rparr> 0 17
     = Inr \<lparr>index_mmap = [0, 0, 0, 0, 0, 0, 0, 0, 0, 0, 0, 17] @ replicate 12 0, index_size = 12\<rparr>
   \<and> index_Read \<lparr>index_mmap = [0, 0, 0, 0, 0, 0, 0, 0, 0, 0, 0, 17] @ replicate 12 0, index_size = 12\<rparr>
        4294967296 = Inr (0, 17)
   \<and> spec_index_Read [(0, 17)] 4294967296 = Inl EOF
   \<and> index_Read \<lparr>index_mmap = [0, 0, 0, 0, 0, 0, 0, 0, 0, 0, 0, 17] @ replicate 12 0, index_size = 12\<rparr>
        1 = Inl EOF"
proof -
  have s: "spec_index_Read [(0, 17)] 4294967296 = Inl EOF"
    by (simp add: spec_index_Read_def)
  have c: "newIndex [] \<lparr>MaxStoreBytes = 1024, MaxIndexBytes = 24, InitialOffset = 0\<rparr>
     = Inr \<lparr>index_mmap = replicate 24 0, index_size = 0\<rparr>
   \<and> index_Write \<lparr>index_mmap = replicate 24 0, index_size = 0\<rparr> 0 17
     = Inr \<lparr>index_mmap = [0, 0, 0, 0, 0, 0, 0, 0, 0, 0, 0, 17] @ replicate 12 0, index_size = 12\<rparr>
   \<and> index_Read \<lparr>index_mmap = [0, 0, 0, 0, 0, 0, 0, 0, 0, 0, 0, 17] @ replicate 12 0, index_size = 12\<rparr>
        4294967296 = Inr (0, 17)
   \<and> index_Read \<lparr>index_mmap = [0, 0, 0, 0, 0, 0, 0, 0, 0, 0, 0, 17] @ replicate 12 0, index_size = 12\<rparr>
        1 = Inl EOF"
    by code_simp
  show ?thesis using s c by blast
qed


section \<open>The segment: what \<open>Append\<close> does to the record\<close>

lemma segment_Append_record:
  "fst (snd (segment_Append marshal s record)) = record\<lparr>Offset := nextOffset s\<rparr>"
  by (simp add: segment_Append_def Let_def split_beta split: option.splits sum.splits)

lemma segment_Append_Inr:
  assumes "segment_Append marshal s record = (Inr off, record', s')"
  shows "off = nextOffset s"
    and "\<exists>p. marshal (record\<lparr>Offset := nextOffset s\<rparr>) = Some p
          \<and> store_bytes (store s') = store_bytes (store s) @ frame p"
  using assms
  by (auto simp: segment_Append_def Let_def split_beta store_Append_bytes
      split: option.splits sum.splits)

text \<open>
  C10.  \<open>segment.Append\<close> changes the record it is given: after the call, also when it
  fails, the record of the caller is the record before the call with \<open>Offset\<close> set to
  the \<open>nextOffset\<close> the segment had, and no other field changed.  When the call returns
  an offset, it is that field, and the bytes appended to the store are the frame of the
  marshalled record with the offset already set.
\<close>

theorem segment_Append_mutates_record:
  "segment_Append marshal s record = (res, record', s') \<Longrightarrow>
     record' = record\<lparr>Offset := nextOffset s\<rparr>
     \<and> (\<forall>off. res = Inr off \<longrightarrow>
           off = Offset record'
           \<and> (\<exists>p. marshal record' = Some p
                 \<and> store_bytes (store s') = store_bytes (store s) @ frame p))"
proof -
  assume a: "segment_Append marshal s record = (res, record', s')"
  have r: "record' = record\<lparr>Offset := nextOffset s\<rparr>"
    using segment_Append_record [of marshal s "record"] a by simp
  show ?thesis
  proof (intro conjI allI impI)
    show "record' = record\<lparr>Offset := nextOffset s\<rparr>" by (rule r)
  next
    fix off assume "res = Inr off"
    then have b: "segment_Append marshal s record = (Inr off, record', s')" using a by simp
    show "off = Offset record'" using segment_Append_Inr(1) [OF b] r by simp
    show "\<exists>p. marshal record' = Some p
        \<and> store_bytes (store s') = store_bytes (store s) @ frame p"
      using segment_Append_Inr(2) [OF b] r by simp
  qed
qed


theorem segment_Append_mutates_record_witness:
  "segment_Append example_marshal
      \<lparr>store = \<lparr>store_File = [], store_buf = [], store_size = 0\<rparr>,
       index = \<lparr>index_mmap = replicate 36 0, index_size = 0\<rparr>,
       baseOffset = 16, nextOffset = 16, config = example_config\<rparr>
      \<lparr>Value = [104, 105], Offset = 0, Term = 0, Type = 0\<rparr>
    = (Inr 16, \<lparr>Value = [104, 105], Offset = 16, Term = 0, Type = 0\<rparr>,
       \<lparr>store = \<lparr>store_File = [],
                 store_buf = [0, 0, 0, 0, 0, 0, 0, 22,
                              0, 0, 0, 0, 0, 0, 0, 16, 0, 0, 0, 0, 0, 0, 0, 0, 0, 0, 0, 0, 104, 105],
                 store_size = 30\<rparr>,
        index = \<lparr>index_mmap = replicate 12 0 @ replicate 24 0, index_size = 12\<rparr>,
        baseOffset = 16, nextOffset = 17, config = example_config\<rparr>)
   \<and> Offset \<lparr>Value = [104, 105], Offset = 16, Term = 0, Type = 0\<rparr> = (16 :: uint64)"
proof -
  let ?s = "\<lparr>store = \<lparr>store_File = [], store_buf = [], store_size = 0\<rparr>,
       index = \<lparr>index_mmap = replicate 36 0, index_size = 0\<rparr>,
       baseOffset = 16, nextOffset = 16, config = example_config\<rparr>"
  let ?r = "\<lparr>Value = [104, 105], Offset = 0, Term = 0, Type = 0\<rparr>"
  let ?r' = "\<lparr>Value = [104, 105], Offset = 16, Term = 0, Type = 0\<rparr>"
  let ?s' = "\<lparr>store = \<lparr>store_File = [],
                 store_buf = [0, 0, 0, 0, 0, 0, 0, 22,
                              0, 0, 0, 0, 0, 0, 0, 16, 0, 0, 0, 0, 0, 0, 0, 0, 0, 0, 0, 0, 104, 105],
                 store_size = 30\<rparr>,
        index = \<lparr>index_mmap = replicate 12 0 @ replicate 24 0, index_size = 12\<rparr>,
        baseOffset = 16, nextOffset = 17, config = example_config\<rparr>"
  have e: "segment_Append example_marshal ?s ?r = (Inr 16, ?r', ?s')"
    by code_simp
  show ?thesis
    using segment_Append_mutates_record [OF e] e by simp
qed


section \<open>The segment: the next offset of a reopened segment\<close>

lemma index_Read_at_raw:
  assumes "unat (index_size i) < 2 ^ 63" "length (index_mmap i) < 2 ^ 63"
  shows "index_Read_at i out =
    (if unat (index_size i) < 12 * unat out + 12 then Inl EOF
     else if 12 * unat out + 12 \<le> length (index_mmap i)
       then Inr (Uint32 (take 4 (drop (12 * unat out) (index_mmap i))),
                 Uint64 (take 8 (drop (12 * unat out + 4) (index_mmap i))))
     else Inl (RuntimePanic ''slice bounds out of range''))"
proof -
  let ?k = "unat out" and ?pos = "ucast out * entWidth :: uint64"
  have p: "unat ?pos = 12 * ?k" by (rule unat_entry_pos)
  have "?k < 2 ^ 32" using unsigned_less [of out, where 'a = nat] by simp
  then have "12 * ?k < 12 * 2 ^ 32" by simp
  also have "\<dots> < (2::nat) ^ 63" by simp
  finally have p63: "unat ?pos < 2 ^ 63" unfolding p .
  have a12: "unat (?pos + 12) = 12 * ?k + 12"
    using unat_add_12 [OF p63] p by simp
  have a4: "unat (?pos + 4) = 12 * ?k + 4"
    using unat_add_4 [OF p63] p by simp
  have lt: "index_size i < ?pos + entWidth \<longleftrightarrow> unat (index_size i) < 12 * ?k + 12"
    unfolding word_less_nat_alt a12 [unfolded entWidth_12] entWidth_12 ..
  have s1: "slice_get (index_mmap i) ?pos (?pos + offWidth) =
      (if 12 * ?k + 4 \<le> length (index_mmap i)
       then Inr (take 4 (drop (12 * ?k) (index_mmap i)))
       else Inl (RuntimePanic ''slice bounds out of range''))"
    unfolding slice_get_def offWidth_def a4 p by simp
  have s2: "slice_get (index_mmap i) (?pos + offWidth) (?pos + entWidth) =
      (if 12 * ?k + 12 \<le> length (index_mmap i)
       then Inr (take 8 (drop (12 * ?k + 4) (index_mmap i)))
       else Inl (RuntimePanic ''slice bounds out of range''))"
    unfolding slice_get_def offWidth_def entWidth_12 a4 [unfolded entWidth_12] a12 [unfolded entWidth_12]
    by simp
  show ?thesis
    unfolding index_Read_at_def Let_def lt s1 s2 by simp
qed



lemma newIndex_Inr:
  assumes "newIndex f c = Inr ix"
  shows "ix = \<lparr>index_mmap = take (unat (MaxIndexBytes c)) f
                   @ replicate (unat (MaxIndexBytes c) - length f) 0,
               index_size = of_nat (length f)\<rparr>"
    and "unat (MaxIndexBytes c) < 2 ^ 63"
  using assms by (auto simp: newIndex_def Let_def sint_neg_iff split: if_splits)

lemma length_newIndex_mmap:
  "newIndex f c = Inr ix \<Longrightarrow> length (index_mmap ix) = unat (MaxIndexBytes c)"
  using newIndex_Inr [of f c ix] by auto

lemma unat_minus_1_ucast: "unat (ucast (0 - 1 :: uint64) :: uint32) = 4294967295"
  by (simp add: unat_ucast_64_32 unsigned_minus_1_eq_mask mask_eq_exp_minus_1)


lemma newIndex_size:
  assumes n: "newIndex f c = Inr ix" and l: "length f < 2 ^ 63"
  shows "unat (index_size ix) = length f" "unat (index_size ix) < 2 ^ 63"
    "length (index_mmap ix) < 2 ^ 63"
proof -
  have sz: "index_size ix = of_nat (length f)" using newIndex_Inr(1) [OF n] by simp
  have "length f < 2 ^ 64" using l by (rule less_trans) simp
  then show u: "unat (index_size ix) = length f" unfolding sz by (rule unat_of_nat64)
  show "unat (index_size ix) < 2 ^ 63" using u l by simp
  show "length (index_mmap ix) < 2 ^ 63"
    using length_newIndex_mmap [OF n] newIndex_Inr(2) [OF n] by simp
qed


lemma newIndex_Read_short:
  assumes n: "newIndex f c = Inr ix" and l: "length f < 12"
  shows "index_Read ix (- 1) = Inl EOF"
proof (cases "length f = 0")
  case True
  then have "index_size ix = 0" using newIndex_Inr(1) [OF n] by simp
  then show ?thesis by (simp add: index_Read_unfold)
next
  case False
  have l63: "length f < 2 ^ 63" using l by simp
  note s = newIndex_size [OF n l63]
  have nz: "index_size ix \<noteq> 0"
  proof
    assume "index_size ix = 0"
    then have "unat (index_size ix) = 0" by simp
    then show False using s(1) False by simp
  qed
  have "unat (index_size ix div entWidth) = 0"
    unfolding unat_div s(1) entWidth_12 using l by simp
  then have "index_size ix div entWidth = 0" by (simp only: unat_0_iff)
  then have k: "unat (ucast (index_size ix div entWidth - 1) :: uint32) = 4294967295"
    using unat_minus_1_ucast by simp
  have "index_Read ix (- 1) = index_Read_at ix (ucast (index_size ix div entWidth - 1))"
    using nz by (simp add: index_Read_unfold)
  also have "\<dots> = Inl EOF"
    unfolding index_Read_at_raw [OF s(2) s(3)] k s(1) using l by simp
  finally show ?thesis .
qed


lemma newIndex_last_out:
  assumes n: "newIndex f c = Inr ix" and ge: "12 \<le> length f" and l: "length f \<le> 12 * 2 ^ 32"
  shows "unat (ucast (index_size ix div entWidth - 1) :: uint32) = length f div 12 - 1"
proof -
  have "(12::nat) * 2 ^ 32 < 2 ^ 63" by simp
  then have l63: "length f < 2 ^ 63" using l by linarith
  note s = newIndex_size [OF n l63]
  have d: "unat (index_size ix div entWidth) = length f div 12"
    unfolding unat_div s(1) entWidth_12 by simp
  have d1: "1 \<le> length f div 12" using ge by simp
  have dnz: "index_size ix div entWidth \<noteq> 0"
  proof
    assume "index_size ix div entWidth = 0"
    then have "unat (index_size ix div entWidth) = 0" by simp
    then show False using d d1 by simp
  qed
  have m: "unat (index_size ix div entWidth - 1) = length f div 12 - 1"
    using unat_minus_one [OF dnz] d by simp
  have "length f div 12 \<le> 2 ^ 32"
    using l by (metis div_le_mono nonzero_mult_div_cancel_left zero_neq_numeral)
  then have "length f div 12 - 1 < 2 ^ 32" using d1 by linarith
  then show ?thesis unfolding unat_ucast_64_32 m by simp
qed


lemma newIndex_Read_last:
  assumes n: "newIndex f c = Inr ix" and ge: "12 \<le> length f" and l: "length f \<le> 12 * 2 ^ 32"
  shows "index_Read ix (- 1) =
    (if 12 * (length f div 12) \<le> unat (MaxIndexBytes c)
       then Inr (lastRelativeOffset f,
                 Uint64 (take 8 (drop (12 * (length f div 12 - 1) + 4) (index_mmap ix))))
     else Inl (RuntimePanic ''slice bounds out of range''))"
proof -
  let ?M = "unat (MaxIndexBytes c)" and ?k = "length f div 12 - 1"
  have "(12::nat) * 2 ^ 32 < 2 ^ 63" by simp
  then have l63: "length f < 2 ^ 63" using l by linarith
  note s = newIndex_size [OF n l63]
  note k = newIndex_last_out [OF n ge l]
  have len: "length (index_mmap ix) = ?M" using n by (rule length_newIndex_mmap)
  have d1: "1 \<le> length f div 12" using ge by simp
  have k12: "12 * ?k + 12 = 12 * (length f div 12)" using d1 by simp
  have le: "12 * (length f div 12) \<le> length f" by simp
  have nlt: "\<not> length f < 12 * (length f div 12)" using le by simp
  have nz: "index_size ix \<noteq> 0"
  proof
    assume "index_size ix = 0"
    then have "unat (index_size ix) = 0" by simp
    then show False using s(1) ge by simp
  qed
  have r: "index_Read ix (- 1) = index_Read_at ix (ucast (index_size ix div entWidth - 1))"
    using nz by (simp add: index_Read_unfold)
  show ?thesis
  proof (cases "12 * (length f div 12) \<le> ?M")
    case True
    have m: "index_mmap ix = take ?M f @ replicate (?M - length f) 0"
      using newIndex_Inr(1) [OF n] by simp
    have "12 * ?k + 4 \<le> length (take ?M f)" using True le k12 by simp
    then have "take 4 (drop (12 * ?k) (index_mmap ix)) = take 4 (drop (12 * ?k) (take ?M f))"
      unfolding m by simp
    also have "\<dots> = take 4 (take (?M - 12 * ?k) (drop (12 * ?k) f))"
      by (simp only: drop_take)
    also have "\<dots> = take 4 (drop (12 * ?k) f)"
      using True k12 by (simp add: min_def)
    finally have t: "Uint32 (take 4 (drop (12 * ?k) (index_mmap ix))) = lastRelativeOffset f"
      by (simp add: lastRelativeOffset_def)
    show ?thesis
      unfolding r index_Read_at_raw [OF s(2) s(3)] k s(1) k12 len t using True nlt by simp
  next
    case False
    then show ?thesis
      unfolding r index_Read_at_raw [OF s(2) s(3)] k s(1) k12 len using nlt by simp
  qed
qed


lemma ucast_of_nat_32: "(ucast (of_nat n :: uint64) :: uint32) = of_nat n"
  by (simp add: unsigned_of_nat take_bit_of_nat word_eq_iff_unsigned[where 'a=nat])

lemma OpenFile_WriteFile:
  "OpenFile (WriteFile d name f) name' = (if name' = name then f else OpenFile d name')"
proof -
  have "map_of (filter (\<lambda>(n, _). n \<noteq> name) d) name' = map_of d name'" if "name' \<noteq> name"
    using that by (induction d) auto
  then show ?thesis by (auto simp: OpenFile_def WriteFile_def)
qed

lemma index_store_name: "index_name b \<noteq> store_name b'"
proof
  assume "index_name b = store_name b'"
  then have "last (index_name b) = last (store_name b')" by simp
  then show False by (simp add: index_name_def store_name_def)
qed


lemma segment_Append_indexed:
  assumes i: "seg_indexed s es" and a: "segment_Append m s r = (Inr off, r', s')"
  shows "\<exists>e. seg_indexed s' (es @ [e]) \<and> baseOffset s' = baseOffset s"
proof -
  have h: "index_holds (index s) es" and f: "map fst es = map of_nat [0..<length es]"
    and nx: "nextOffset s = baseOffset s + of_nat (length es)"
    using i unfolding seg_indexed_def by blast+
  let ?off = "ucast (nextOffset s - baseOffset s) :: uint32"
  from a obtain p where p: "m (r\<lparr>Offset := nextOffset s\<rparr>) = Some p"
    by (auto simp: segment_Append_def Let_def split: option.splits)
  let ?pos = "store_size (store s)"
  from a p obtain ix where w: "index_Write (index s) ?off ?pos = Inr ix"
    and s': "s' = s\<lparr>store := snd (store_Append (store s) p), index := ix,
                    nextOffset := nextOffset s + 1\<rparr>"
    by (auto simp: segment_Append_def Let_def split_beta store_Append_def split: sum.splits)
  have off: "?off = of_nat (length es)" unfolding nx by (simp add: ucast_of_nat_32)
  have h': "index_holds ix (es @ [(?off, ?pos)])" using h w by (rule index_Write_holds)
  have f': "map fst (es @ [(?off, ?pos)]) = map of_nat [0..<length (es @ [(?off, ?pos)])]"
    using f off by simp
  have "seg_indexed s' (es @ [(?off, ?pos)])"
    unfolding seg_indexed_def s' using h' f' nx by simp
  then show ?thesis unfolding s' by auto
qed

lemma segment_Appends_indexed:
  "seg_indexed s es \<Longrightarrow> segment_Appends m s rs = Inr s' \<Longrightarrow>
     \<exists>es'. seg_indexed s' es' \<and> length es' = length es + length rs \<and> baseOffset s' = baseOffset s"
proof (induction rs arbitrary: s es)
  case Nil
  then show ?case by auto
next
  case (Cons r rs)
  from Cons.prems(2) obtain off r' s1 where a: "segment_Append m s r = (Inr off, r', s1)"
    and as: "segment_Appends m s1 rs = Inr s'"
    by (auto split: prod.splits sum.splits)
  from segment_Append_indexed [OF Cons.prems(1) a] obtain e
    where i1: "seg_indexed s1 (es @ [e])" and b1: "baseOffset s1 = baseOffset s" by blast
  from Cons.IH [OF i1 as] obtain es' where "seg_indexed s' es'"
    "length es' = length (es @ [e]) + length rs" "baseOffset s' = baseOffset s1" by blast
  then show ?case using b1 by auto
qed

lemma newIndex_ok:
  assumes "MaxIndexBytes c \<noteq> 0" "unat (MaxIndexBytes c) < 2 ^ 63"
  shows "newIndex f c = Inr \<lparr>index_mmap = take (unat (MaxIndexBytes c)) f
                   @ replicate (unat (MaxIndexBytes c) - length f) 0,
               index_size = of_nat (length f)\<rparr>"
  using assms by (simp add: newIndex_def Let_def sint_neg_iff)

lemma newSegment_short:
  assumes nz: "MaxIndexBytes c \<noteq> 0" and M: "unat (MaxIndexBytes c) < 2 ^ 63"
    and l: "length (OpenFile d (index_name base)) < 12"
  shows "\<exists>s. newSegment d base c = Inr s \<and> baseOffset s = base \<and> nextOffset s = base"
proof -
  let ?f = "OpenFile d (index_name base)"
  obtain ix where n: "newIndex ?f c = Inr ix" using newIndex_ok [OF nz M] by blast
  have r: "index_Read ix (- 1) = Inl EOF" using n l by (rule newIndex_Read_short)
  show ?thesis using n r by (simp add: newSegment_def Let_def)
qed

lemma newSegment_last:
  assumes M: "unat (MaxIndexBytes c) < 2 ^ 63"
    and ge: "12 \<le> length (OpenFile d (index_name base))"
    and le: "length (OpenFile d (index_name base)) \<le> 12 * 2 ^ 32"
    and fits: "12 * (length (OpenFile d (index_name base)) div 12) \<le> unat (MaxIndexBytes c)"
  shows "\<exists>s. newSegment d base c = Inr s \<and> baseOffset s = base
     \<and> nextOffset s = base + ucast (lastRelativeOffset (OpenFile d (index_name base))) + 1"
proof -
  let ?f = "OpenFile d (index_name base)"
  have "1 \<le> length ?f div 12" using ge by simp
  then have "12 * 1 \<le> 12 * (length ?f div 12)" by (rule mult_le_mono2)
  then have "12 \<le> unat (MaxIndexBytes c)" using fits by simp
  then have nz: "MaxIndexBytes c \<noteq> 0" by auto
  obtain ix where n: "newIndex ?f c = Inr ix" using newIndex_ok [OF nz M] by blast
  note r = newIndex_Read_last [OF n ge le]
  show ?thesis using n r fits by (simp add: newSegment_def Let_def)
qed


lemma newSegment_indexed:
  assumes f: "OpenFile d (index_name base) = concat (map entry es)"
    and sh: "map fst es = map of_nat [0..<length es]"
    and n32: "length es \<le> 2 ^ 32"
    and o: "newSegment d base c = Inr s"
  shows "seg_indexed s es \<and> baseOffset s = base"
proof -
  let ?f = "OpenFile d (index_name base)" and ?M = "unat (MaxIndexBytes c)"
  from o obtain ix where n: "newIndex ?f c = Inr ix"
    by (auto simp: newSegment_def Let_def split: sum.splits)
  have b: "baseOffset s = base" and ixs: "index s = ix"
    using o n by (auto simp: newSegment_def Let_def split: sum.splits error.splits)
  have lf: "length ?f = 12 * length es" unfolding f by simp
  have "12 * length es \<le> 12 * 2 ^ 32" using n32 by simp
  then have le: "length ?f \<le> 12 * 2 ^ 32" unfolding lf .
  have "(12::nat) * 2 ^ 32 < 2 ^ 63" by simp
  then have l63: "length ?f < 2 ^ 63" using le by linarith
  note sz = newIndex_size [OF n l63]
  note I = newIndex_Inr [OF n]
  have fits: "12 * length es \<le> ?M"
  proof (cases "es = []")
    case True
    then show ?thesis by simp
  next
    case False
    then have ge: "12 \<le> length ?f" unfolding lf by (cases es) simp_all
    have d: "12 * (length ?f div 12) = 12 * length es" unfolding lf by simp
    show ?thesis
    proof (rule ccontr)
      assume "\<not> 12 * length es \<le> ?M"
      then have "index_Read ix (- 1) = Inl (RuntimePanic ''slice bounds out of range'')"
        using newIndex_Read_last [OF n ge le] unfolding d by simp
      then show False using o n by (simp add: newSegment_def Let_def)
    qed
  qed
  have t: "take (12 * length es) (index_mmap ix) = concat (map entry es)"
    unfolding I(1) using fits lf f by simp
  have h: "index_holds ix es"
    unfolding index_holds_def
    using t fits sz(3) length_newIndex_mmap [OF n] I(1) lf by simp
  have nx: "nextOffset s = base + of_nat (length es)"
  proof (cases "es = []")
    case True
    then have "index_Read ix (- 1) = Inl EOF"
      using index_Read_holds [OF h n32, of "- 1"] by simp
    then show ?thesis using o n True by (auto simp: newSegment_def Let_def)
  next
    case False
    then have r: "index_Read ix (- 1) = Inr (last es)"
      using index_Read_holds [OF h n32, of "- 1"] by simp
    have "last es = es ! (length es - 1)" using False by (rule last_conv_nth)
    then have "fst (last es) = map fst es ! (length es - 1)" using False by simp
    also have "\<dots> = of_nat (length es - 1)" unfolding sh using False by simp
    finally have fl: "fst (last es) = of_nat (length es - 1)" .
    have "length es - 1 < 2 ^ 32" using n32 False by (cases es) simp_all
    then have u: "unat (of_nat (length es - 1) :: uint32) = length es - 1"
      by (simp add: unsigned_of_nat take_bit_nat_eq_self)
    have u1: "unat (ucast (of_nat (length es - 1) :: uint32) :: uint64) = length es - 1"
      unfolding unat_ucast_32_64 u ..
    have "length es - 1 < 2 ^ 64" using \<open>length es - 1 < 2 ^ 32\<close> by (rule less_trans) simp
    then have u2: "unat (of_nat (length es - 1) :: uint64) = length es - 1"
      by (rule unat_of_nat64)
    have uc: "(ucast (of_nat (length es - 1) :: uint32) :: uint64) = of_nat (length es - 1)"
      unfolding word_eq_iff_unsigned [where 'a = nat] u1 u2 ..
    have "nextOffset s = base + ucast (fst (last es)) + 1"
      using o n r by (auto simp: newSegment_def Let_def split: prod.splits)
    also have "\<dots> = base + of_nat (length es - 1) + 1" unfolding fl uc ..
    also have "\<dots> = base + of_nat (length es)" using False by (cases es) simp_all
    finally show ?thesis .
  qed
  show ?thesis unfolding seg_indexed_def using h sh nx b ixs by simp
qed

lemma segment_Close_indexed:
  assumes "seg_indexed s es"
  shows "segment_Close d s =
    (None, WriteFile (WriteFile d (index_name (baseOffset s)) (concat (map entry es)))
             (store_name (baseOffset s)) (store_Close (store s)))"
proof -
  have h: "index_holds (index s) es" using assms unfolding seg_indexed_def by blast
  note b = index_holds_bounds [OF h]
  have u: "unat (index_size (index s)) = 12 * length es" using h by (rule index_holds_unat_size)
  have ns: "\<not> sint (index_size (index s)) < 0" unfolding sint_neg_iff using b(1) by blast
  have "index_Close (index s) = Inr (concat (map entry es))"
    unfolding index_Close_def u using ns b(3) b(4) by simp
  then show ?thesis by (simp add: segment_Close_def)
qed

lemma newSegment_closed_file:
  assumes f: "OpenFile d (index_name base) = concat (map entry es)"
    and n32: "length es \<le> 2 ^ 32"
    and nz: "MaxIndexBytes c \<noteq> 0" and M: "unat (MaxIndexBytes c) < 2 ^ 63"
    and fits: "12 * length es \<le> unat (MaxIndexBytes c)"
  shows "\<exists>s. newSegment d base c = Inr s"
proof (cases "es = []")
  case True
  then have "length (OpenFile d (index_name base)) < 12" unfolding f by simp
  then show ?thesis using newSegment_short [OF nz M] by blast
next
  case False
  have lf: "length (OpenFile d (index_name base)) = 12 * length es" unfolding f by simp
  have ge: "12 \<le> length (OpenFile d (index_name base))"
    unfolding lf using False by (cases es) simp_all
  have le: "length (OpenFile d (index_name base)) \<le> 12 * 2 ^ 32"
    unfolding lf using n32 by simp
  have ft: "12 * (length (OpenFile d (index_name base)) div 12) \<le> unat (MaxIndexBytes c)"
    unfolding lf using fits by simp
  show ?thesis using newSegment_last [OF M ge le ft] by blast
qed

text \<open>
  C7, as stated, fails for a directory whose index file was not closed: \<open>newIndex\<close>
  takes the size of the file for \<open>size\<close>, and a file that was mapped and not closed
  keeps the length \<open>MaxIndexBytes\<close>, with zero bytes after the entries written.  With
  the entries of the offsets 16 and 17 followed by twelve zero bytes, \<open>newSegment\<close> reads
  the zero bytes as the last entry and sets \<open>nextOffset\<close> to 17, the offset of a record
  that is indexed and that \<open>Read(17)\<close> returns, not the offset after it.
\<close>

theorem newSegment_padded_index_counterexample:
  "newSegment
     [(''16.index'', [0, 0, 0, 0, 0, 0, 0, 0, 0, 0, 0, 0, 0, 0, 0, 1, 0, 0, 0, 0, 0, 0, 0, 30,
                      0, 0, 0, 0, 0, 0, 0, 0, 0, 0, 0, 0]),
      (''16.store'',
         [0, 0, 0, 0, 0, 0, 0, 22,
          0, 0, 0, 0, 0, 0, 0, 16, 0, 0, 0, 0, 0, 0, 0, 0, 0, 0, 0, 0, 104, 105,
          0, 0, 0, 0, 0, 0, 0, 22,
          0, 0, 0, 0, 0, 0, 0, 17, 0, 0, 0, 0, 0, 0, 0, 0, 0, 0, 0, 0, 104, 111])]
     16 example_config
   = Inr \<lparr>store = \<lparr>store_File =
             [0, 0, 0, 0, 0, 0, 0, 22,
              0, 0, 0, 0, 0, 0, 0, 16, 0, 0, 0, 0, 0, 0, 0, 0, 0, 0, 0, 0, 104, 105,
              0, 0, 0, 0, 0, 0, 0, 22,
              0, 0, 0, 0, 0, 0, 0, 17, 0, 0, 0, 0, 0, 0, 0, 0, 0, 0, 0, 0, 104, 111],
             store_buf = [], store_size = 60\<rparr>,
           index = \<lparr>index_mmap =
             [0, 0, 0, 0, 0, 0, 0, 0, 0, 0, 0, 0, 0, 0, 0, 1, 0, 0, 0, 0, 0, 0, 0, 30,
              0, 0, 0, 0, 0, 0, 0, 0, 0, 0, 0, 0],
             index_size = 36\<rparr>,
           baseOffset = 16, nextOffset = 17, config = example_config\<rparr>
   \<and> fst (segment_Read example_unmarshal
        \<lparr>store = \<lparr>store_File =
             [0, 0, 0, 0, 0, 0, 0, 22,
              0, 0, 0, 0, 0, 0, 0, 16, 0, 0, 0, 0, 0, 0, 0, 0, 0, 0, 0, 0, 104, 105,
              0, 0, 0, 0, 0, 0, 0, 22,
              0, 0, 0, 0, 0, 0, 0, 17, 0, 0, 0, 0, 0, 0, 0, 0, 0, 0, 0, 0, 104, 111],
             store_buf = [], store_size = 60\<rparr>,
           index = \<lparr>index_mmap =
             [0, 0, 0, 0, 0, 0, 0, 0, 0, 0, 0, 0, 0, 0, 0, 1, 0, 0, 0, 0, 0, 0, 0, 30,
              0, 0, 0, 0, 0, 0, 0, 0, 0, 0, 0, 0],
             index_size = 36\<rparr>,
           baseOffset = 16, nextOffset = 17, config = example_config\<rparr> 17)
     = Inr \<lparr>Value = [104, 111], Offset = 17, Term = 0, Type = 0\<rparr>"
  by code_simp

text \<open>
  C7, amended.  For a configuration whose \<open>MaxIndexBytes\<close> is positive, below \<open>2\<^sup>6\<^sup>3\<close>
  and not smaller than the entries of the index file,
  \<open>newSegment(dir, baseOffset, config)\<close> returns a segment; its \<open>nextOffset\<close> is
  \<open>baseOffset\<close> when the index file holds no entry (it is empty, or created by the
  call), and \<open>baseOffset + lastRelativeOffset + 1\<close> when the file holds at least one
  entry, \<open>lastRelativeOffset\<close> being the relative offset in the last 12 bytes-entry of
  the file.  A segment that is closed resumes immediately after its last indexed record
  when it is reopened: if the index file holds entries with the relative offsets
  \<open>0, 1, ...\<close> in order, as \<open>Append\<close> writes them and \<open>Close\<close> leaves them, then
  after \<open>newSegment\<close>, appends and \<open>Close\<close>, the file is again of that form and
  \<open>newSegment\<close> on the directory that \<open>Close\<close> leaves gives the \<open>nextOffset\<close> the
  segment had when it was closed, which is \<open>baseOffset\<close> plus the number of entries.
  (An index file holds at most \<open>2\<^sup>3\<^sup>2\<close> entries: relative offsets are 32 bits wide.)
\<close>

theorem newSegment_nextOffset:
  "(MaxIndexBytes c \<noteq> 0 \<and> unat (MaxIndexBytes c) < 2 ^ 63
      \<and> length (OpenFile d (index_name base)) < 12 \<longrightarrow>
      (\<exists>s. newSegment d base c = Inr s \<and> baseOffset s = base \<and> nextOffset s = base))
   \<and> (12 \<le> length (OpenFile d (index_name base))
      \<and> length (OpenFile d (index_name base)) \<le> 12 * 2 ^ 32
      \<and> 12 * (length (OpenFile d (index_name base)) div 12) \<le> unat (MaxIndexBytes c)
      \<and> unat (MaxIndexBytes c) < 2 ^ 63 \<longrightarrow>
      (\<exists>s. newSegment d base c = Inr s \<and> baseOffset s = base
         \<and> nextOffset s = base + ucast (lastRelativeOffset (OpenFile d (index_name base))) + 1))
   \<and> (OpenFile d (index_name base) = concat (map entry es)
      \<and> map fst es = map of_nat [0..<length es]
      \<and> newSegment d base c = Inr s0
      \<and> segment_Appends marshal s0 rs = Inr s1
      \<and> length es + length rs \<le> 2 ^ 32
      \<and> MaxIndexBytes c' \<noteq> 0 \<and> unat (MaxIndexBytes c') < 2 ^ 63
      \<and> 12 * (length es + length rs) \<le> unat (MaxIndexBytes c') \<longrightarrow>
      (\<exists>d' s' es'. segment_Close d s1 = (None, d')
         \<and> OpenFile d' (index_name base) = concat (map entry es')
         \<and> map fst es' = map of_nat [0..<length es']
         \<and> length es' = length es + length rs
         \<and> newSegment d' base c' = Inr s'
         \<and> nextOffset s' = nextOffset s1
         \<and> nextOffset s1 = base + of_nat (length es + length rs)))"
proof (intro conjI impI)
  assume "MaxIndexBytes c \<noteq> 0 \<and> unat (MaxIndexBytes c) < 2 ^ 63
      \<and> length (OpenFile d (index_name base)) < 12"
  then show "\<exists>s. newSegment d base c = Inr s \<and> baseOffset s = base \<and> nextOffset s = base"
    using newSegment_short [of c d base] by blast
next
  assume "12 \<le> length (OpenFile d (index_name base))
      \<and> length (OpenFile d (index_name base)) \<le> 12 * 2 ^ 32
      \<and> 12 * (length (OpenFile d (index_name base)) div 12) \<le> unat (MaxIndexBytes c)
      \<and> unat (MaxIndexBytes c) < 2 ^ 63"
  then show "\<exists>s. newSegment d base c = Inr s \<and> baseOffset s = base
         \<and> nextOffset s = base + ucast (lastRelativeOffset (OpenFile d (index_name base))) + 1"
    using newSegment_last [of c d base] by blast
next
  assume a: "OpenFile d (index_name base) = concat (map entry es)
      \<and> map fst es = map of_nat [0..<length es]
      \<and> newSegment d base c = Inr s0
      \<and> segment_Appends marshal s0 rs = Inr s1
      \<and> length es + length rs \<le> 2 ^ 32
      \<and> MaxIndexBytes c' \<noteq> 0 \<and> unat (MaxIndexBytes c') < 2 ^ 63
      \<and> 12 * (length es + length rs) \<le> unat (MaxIndexBytes c')"
  then have f: "OpenFile d (index_name base) = concat (map entry es)"
    and sh: "map fst es = map of_nat [0..<length es]"
    and o: "newSegment d base c = Inr s0"
    and ap: "segment_Appends marshal s0 rs = Inr s1"
    and n: "length es + length rs \<le> 2 ^ 32"
    and nz: "MaxIndexBytes c' \<noteq> 0" and M: "unat (MaxIndexBytes c') < 2 ^ 63"
    and fits: "12 * (length es + length rs) \<le> unat (MaxIndexBytes c')"
    by blast+
  have n0: "length es \<le> 2 ^ 32" using n by linarith
  have i0: "seg_indexed s0 es" and b0: "baseOffset s0 = base"
    using newSegment_indexed [OF f sh n0 o] by blast+
  from segment_Appends_indexed [OF i0 ap] obtain es' where i1: "seg_indexed s1 es'"
    and l1: "length es' = length es + length rs" and b1: "baseOffset s1 = base"
    using b0 by auto
  let ?d' = "WriteFile (WriteFile d (index_name base) (concat (map entry es')))
             (store_name base) (store_Close (store s1))"
  have cl: "segment_Close d s1 = (None, ?d')"
    using segment_Close_indexed [OF i1, of d] unfolding b1 .
  have f': "OpenFile ?d' (index_name base) = concat (map entry es')"
    by (simp add: OpenFile_WriteFile index_store_name)
  have sh': "map fst es' = map of_nat [0..<length es']"
    using i1 unfolding seg_indexed_def by blast
  have n1: "length es' \<le> 2 ^ 32" unfolding l1 using n .
  have fits': "12 * length es' \<le> unat (MaxIndexBytes c')" unfolding l1 using fits .
  from newSegment_closed_file [OF f' n1 nz M fits'] obtain s'
    where o': "newSegment ?d' base c' = Inr s'" by blast
  have i': "seg_indexed s' es'" and b': "baseOffset s' = base"
    using newSegment_indexed [OF f' sh' n1 o'] by blast+
  have nx1: "nextOffset s1 = base + of_nat (length es + length rs)"
    using i1 unfolding seg_indexed_def l1 b1 by blast
  have nx': "nextOffset s' = nextOffset s1"
    using i' unfolding seg_indexed_def l1 b' nx1 by blast
  show "\<exists>d' s' es'. segment_Close d s1 = (None, d')
         \<and> OpenFile d' (index_name base) = concat (map entry es')
         \<and> map fst es' = map of_nat [0..<length es']
         \<and> length es' = length es + length rs
         \<and> newSegment d' base c' = Inr s'
         \<and> nextOffset s' = nextOffset s1
         \<and> nextOffset s1 = base + of_nat (length es + length rs)"
    using cl f' sh' l1 o' nx' nx1 by blast
qed

lemma example_config_index:
  "MaxIndexBytes example_config \<noteq> 0" "unat (MaxIndexBytes example_config) = 36"
  by (simp_all add: example_config_def)

lemma example_fresh_index_file: "OpenFile [] (index_name 16) = []"
  by (simp add: OpenFile_def)

lemma example_index_file:
  "OpenFile example_dir (index_name 16)
     = [0, 0, 0, 0, 0, 0, 0, 0, 0, 0, 0, 0, 0, 0, 0, 1, 0, 0, 0, 0, 0, 0, 0, 30]"
  by code_simp

lemma example_last: "lastRelativeOffset (OpenFile example_dir (index_name 16)) = 1"
  unfolding example_index_file by code_simp

theorem newSegment_nextOffset_witness:
  "(\<exists>s. newSegment [] 16 example_config = Inr s \<and> baseOffset s = 16 \<and> nextOffset s = 16)
   \<and> (\<exists>s. newSegment example_dir 16 example_config = Inr s \<and> baseOffset s = 16
          \<and> nextOffset s = 18)
   \<and> (\<exists>d' s'.
        segment_Close []
          \<lparr>store = \<lparr>store_File = [],
                     store_buf = [0, 0, 0, 0, 0, 0, 0, 21,
                                  0, 0, 0, 0, 0, 0, 0, 16, 0, 0, 0, 0, 0, 0, 0, 0, 0, 0, 0, 0, 104,
                                  0, 0, 0, 0, 0, 0, 0, 21,
                                  0, 0, 0, 0, 0, 0, 0, 17, 0, 0, 0, 0, 0, 0, 0, 0, 0, 0, 0, 0, 105],
                     store_size = 58\<rparr>,
            index = \<lparr>index_mmap = [0, 0, 0, 0, 0, 0, 0, 0, 0, 0, 0, 0,
                                     0, 0, 0, 1, 0, 0, 0, 0, 0, 0, 0, 29,
                                     0, 0, 0, 0, 0, 0, 0, 0, 0, 0, 0, 0],
                     index_size = 24\<rparr>,
            baseOffset = 16, nextOffset = 18, config = example_config\<rparr> = (None, d')
        \<and> newSegment d' 16 example_config = Inr s' \<and> nextOffset s' = 18)"
proof -
  let ?s0 = "\<lparr>store = \<lparr>store_File = [], store_buf = [], store_size = 0\<rparr>,
              index = \<lparr>index_mmap = replicate 36 0, index_size = 0\<rparr>,
              baseOffset = 16, nextOffset = 16, config = example_config\<rparr>"
  let ?s1 = "\<lparr>store = \<lparr>store_File = [],
                     store_buf = [0, 0, 0, 0, 0, 0, 0, 21,
                                  0, 0, 0, 0, 0, 0, 0, 16, 0, 0, 0, 0, 0, 0, 0, 0, 0, 0, 0, 0, 104,
                                  0, 0, 0, 0, 0, 0, 0, 21,
                                  0, 0, 0, 0, 0, 0, 0, 17, 0, 0, 0, 0, 0, 0, 0, 0, 0, 0, 0, 0, 105],
                     store_size = 58\<rparr>,
            index = \<lparr>index_mmap = [0, 0, 0, 0, 0, 0, 0, 0, 0, 0, 0, 0,
                                     0, 0, 0, 1, 0, 0, 0, 0, 0, 0, 0, 29,
                                     0, 0, 0, 0, 0, 0, 0, 0, 0, 0, 0, 0],
                     index_size = 24\<rparr>,
            baseOffset = 16, nextOffset = 18, config = example_config\<rparr>"
  let ?rs = "[example_record 104, example_record 105]"
  have o: "newSegment [] 16 example_config = Inr ?s0" by code_simp
  have ap: "segment_Appends example_marshal ?s0 ?rs = Inr ?s1" by code_simp
  have f0: "OpenFile [] (index_name 16) = concat (map entry [])"
    unfolding example_fresh_index_file by simp
  have sh0: "map fst ([] :: (uint32 \<times> uint64) list) = map of_nat [0..<length ([] :: (uint32 \<times> uint64) list)]"
    by simp
  have l0: "length (OpenFile [] (index_name 16)) < 12"
    unfolding example_fresh_index_file by simp
  have M: "unat (MaxIndexBytes example_config) < 2 ^ 63"
    unfolding example_config_index by simp
  have n: "length ([] :: (uint32 \<times> uint64) list) + length ?rs \<le> 2 ^ 32" by simp
  have fits: "12 * (length ([] :: (uint32 \<times> uint64) list) + length ?rs)
      \<le> unat (MaxIndexBytes example_config)"
    unfolding example_config_index by simp
  note A = newSegment_nextOffset [of example_config "[]" 16 "[]" ?s0 example_marshal ?rs ?s1
      example_config]
  have a1: "\<exists>s. newSegment [] 16 example_config = Inr s \<and> baseOffset s = 16 \<and> nextOffset s = 16"
    using A example_config_index(1) M l0 by blast
  have "\<exists>d' s' es'. segment_Close [] ?s1 = (None, d')
         \<and> OpenFile d' (index_name 16) = concat (map entry es')
         \<and> map fst es' = map of_nat [0..<length es']
         \<and> length es' = length ([] :: (uint32 \<times> uint64) list) + length ?rs
         \<and> newSegment d' 16 example_config = Inr s'
         \<and> nextOffset s' = nextOffset ?s1
         \<and> nextOffset ?s1 = 16 + of_nat (length ([] :: (uint32 \<times> uint64) list) + length ?rs)"
    using A f0 sh0 o ap n example_config_index(1) M fits by blast
  then have a3: "\<exists>d' s'. segment_Close [] ?s1 = (None, d')
        \<and> newSegment d' 16 example_config = Inr s' \<and> nextOffset s' = 18"
    by auto
  have g: "12 \<le> length (OpenFile example_dir (index_name 16))"
    unfolding example_index_file by simp
  have l: "length (OpenFile example_dir (index_name 16)) \<le> 12 * 2 ^ 32"
    unfolding example_index_file by simp
  have ft: "12 * (length (OpenFile example_dir (index_name 16)) div 12)
      \<le> unat (MaxIndexBytes example_config)"
    unfolding example_index_file example_config_index by simp
  have "\<exists>s. newSegment example_dir 16 example_config = Inr s \<and> baseOffset s = 16
         \<and> nextOffset s = 16 + ucast (lastRelativeOffset (OpenFile example_dir (index_name 16))) + 1"
    using newSegment_nextOffset [of example_config example_dir 16] g l ft M by blast
  then have a2: "\<exists>s. newSegment example_dir 16 example_config = Inr s \<and> baseOffset s = 16
          \<and> nextOffset s = 18"
    unfolding example_last by simp
  show ?thesis using a1 a2 a3 by blast
qed


section \<open>The picker: routing\<close>

lemma nextFollower_eq:
  assumes "followers p \<noteq> []" "length (followers p) < 2 ^ 64"
  shows "nextFollower p =
    (Inr (followers p ! (unat (current p + 1) mod length (followers p))),
     p\<lparr>current := current p + 1\<rparr>)"
proof -
  let ?n = "length (followers p)"
  have u: "unat (of_nat ?n :: uint64) = ?n" using assms(2) by (rule unat_of_nat64)
  have nz: "(of_nat ?n :: uint64) \<noteq> 0"
  proof
    assume "(of_nat ?n :: uint64) = 0"
    then have "unat (of_nat ?n :: uint64) = 0" by simp
    then show False using u assms(1) by simp
  qed
  have "unat ((current p + 1) mod of_nat ?n) = unat (current p + 1) mod ?n"
    unfolding unat_mod u ..
  then show ?thesis using nz by (simp add: nextFollower_def Let_def)
qed

text \<open>
  C8.  \<open>Pick\<close> on a built picker takes the first case that applies.  If the full method
  name contains "Produce" or there is no follower, the leader is chosen.  Otherwise, if
  the name contains "Consume", the counter is incremented and the follower at the index
  "counter modulo number of followers" is chosen (round robin).  Otherwise nothing is
  chosen.  When the chosen sub-connection is absent (\<open>nil\<close>), \<open>Pick\<close> returns
  \<open>ErrNoSubConnAvailable\<close>; otherwise it returns the chosen sub-connection.
\<close>

theorem Pick_routing:
  "(strings_Contains name ''Produce'' \<or> followers p = [] \<longrightarrow>
      Pick p name = ((if leader p = None then Inl ErrNoSubConnAvailable else Inr (leader p)), p))
   \<and> (\<not> strings_Contains name ''Produce'' \<and> strings_Contains name ''Consume''
        \<and> followers p \<noteq> [] \<and> length (followers p) < 2 ^ 64 \<longrightarrow>
      unat (current p + 1) mod length (followers p) < length (followers p)
      \<and> Pick p name =
          ((if followers p ! (unat (current p + 1) mod length (followers p)) = None
            then Inl ErrNoSubConnAvailable
            else Inr (followers p ! (unat (current p + 1) mod length (followers p)))),
           p\<lparr>current := current p + 1\<rparr>))
   \<and> (\<not> strings_Contains name ''Produce'' \<and> \<not> strings_Contains name ''Consume''
        \<and> followers p \<noteq> [] \<longrightarrow>
      Pick p name = (Inl ErrNoSubConnAvailable, p))"
proof (intro conjI impI)
  assume "strings_Contains name ''Produce'' \<or> followers p = []"
  then show "Pick p name
      = ((if leader p = None then Inl ErrNoSubConnAvailable else Inr (leader p)), p)"
    by (auto simp: Pick_def Pick_result_def)
next
  assume a: "\<not> strings_Contains name ''Produce'' \<and> strings_Contains name ''Consume''
        \<and> followers p \<noteq> [] \<and> length (followers p) < 2 ^ 64"
  then show "unat (current p + 1) mod length (followers p) < length (followers p)"
    by simp
  have "nextFollower p =
    (Inr (followers p ! (unat (current p + 1) mod length (followers p))),
     p\<lparr>current := current p + 1\<rparr>)"
    using a by (intro nextFollower_eq) simp_all
  then show "Pick p name =
          ((if followers p ! (unat (current p + 1) mod length (followers p)) = None
            then Inl ErrNoSubConnAvailable
            else Inr (followers p ! (unat (current p + 1) mod length (followers p)))),
           p\<lparr>current := current p + 1\<rparr>)"
    using a by (simp add: Pick_def Pick_result_def)
next
  assume "\<not> strings_Contains name ''Produce'' \<and> \<not> strings_Contains name ''Consume''
        \<and> followers p \<noteq> []"
  then show "Pick p name = (Inl ErrNoSubConnAvailable, p)"
    by (simp add: Pick_def Pick_result_def)
qed

lemma ex_names:
  "strings_Contains ''/log.v1.Log/Produce'' ''Produce''"
  "\<not> strings_Contains ''/log.v1.Log/Consume'' ''Produce''"
  "strings_Contains ''/log.v1.Log/Consume'' ''Consume''"
  "\<not> strings_Contains ''/log.v1.Log/GetServers'' ''Produce''"
  "\<not> strings_Contains ''/log.v1.Log/GetServers'' ''Consume''"
  by code_simp+

theorem Pick_routing_witness:
  "Pick \<lparr>leader = Some 0, followers = [Some 1, Some 2], current = 0\<rparr> ''/log.v1.Log/Produce''
     = (Inr (Some 0), \<lparr>leader = Some 0, followers = [Some 1, Some 2], current = 0\<rparr>)
   \<and> Pick \<lparr>leader = Some 0, followers = [Some 1, Some 2], current = 0\<rparr> ''/log.v1.Log/Consume''
     = (Inr (Some 2), \<lparr>leader = Some 0, followers = [Some 1, Some 2], current = 1\<rparr>)
   \<and> Pick \<lparr>leader = Some 0, followers = [Some 1, Some 2], current = 1\<rparr> ''/log.v1.Log/Consume''
     = (Inr (Some 1), \<lparr>leader = Some 0, followers = [Some 1, Some 2], current = 2\<rparr>)
   \<and> Pick \<lparr>leader = None, followers = [], current = 0\<rparr> ''/log.v1.Log/Consume''
     = (Inl ErrNoSubConnAvailable, \<lparr>leader = None, followers = [], current = 0\<rparr>)
   \<and> Pick \<lparr>leader = Some 0, followers = [Some 1, Some 2], current = 0\<rparr> ''/log.v1.Log/GetServers''
     = (Inl ErrNoSubConnAvailable, \<lparr>leader = Some 0, followers = [Some 1, Some 2], current = 0\<rparr>)"
proof -
  let ?p = "\<lparr>leader = Some 0, followers = [Some 1, Some 2], current = 0\<rparr>"
  have f: "followers ?p \<noteq> [] \<and> length (followers ?p) < 2 ^ 64" by simp
  have e1: "Pick ?p ''/log.v1.Log/Produce'' = (Inr (Some 0), ?p)"
    using Pick_routing [of "''/log.v1.Log/Produce''" ?p] ex_names by simp
  have i: "unat (current ?p + 1) mod length (followers ?p) = 1" by simp
  have e2: "Pick ?p ''/log.v1.Log/Consume'' = (Inr (Some 2), ?p\<lparr>current := 1\<rparr>)"
    using Pick_routing [of "''/log.v1.Log/Consume''" ?p] ex_names f unfolding i by simp
  have e3: "Pick (?p\<lparr>current := 1\<rparr>) ''/log.v1.Log/Consume''
      = (Inr (Some 1), ?p\<lparr>current := 2\<rparr>)"
    by code_simp
  have e4: "Pick \<lparr>leader = None, followers = [], current = 0\<rparr> ''/log.v1.Log/Consume''
     = (Inl ErrNoSubConnAvailable, \<lparr>leader = None, followers = [], current = 0\<rparr>)"
    using Pick_routing [of "''/log.v1.Log/Consume''" "\<lparr>leader = None, followers = [], current = 0\<rparr>"]
    by simp
  have e5: "Pick ?p ''/log.v1.Log/GetServers'' = (Inl ErrNoSubConnAvailable, ?p)"
    using Pick_routing [of "''/log.v1.Log/GetServers''" ?p] ex_names by simp
  show ?thesis using e1 e2 e3 e4 e5 by simp
qed


section \<open>Membership: the event loop\<close>

lemma joinMembers_spec:
  "joinMembers localName ms
     = map (\<lambda>m. Join (Name m) (rpc_addr m)) (filter (\<lambda>m. Name m \<noteq> localName) ms)"
  by (induction ms) auto

lemma leaveMembers_spec:
  "\<forall>m \<in> set ms. Name m \<noteq> localName \<Longrightarrow>
     leaveMembers localName ms = (map (\<lambda>m. Leave (Name m)) ms, False)"
  by (induction ms) auto

text \<open>
  As long as no leave or failed event names the local node, the event loop makes the
  calls the specification describes.
\<close>

lemma eventHandler_spec:
  "list_all (\<lambda>e. \<not> leaves_local localName e) es \<Longrightarrow>
     eventHandler localName es = spec_dispatch localName es"
proof (induction es)
  case Nil
  then show ?case by (simp add: spec_dispatch_def)
next
  case (Cons e es)
  then have ih: "eventHandler localName es = spec_dispatch localName es" by simp
  show ?case
  proof (cases e)
    case (EventMemberJoin ms)
    then show ?thesis using ih by (simp add: spec_dispatch_def joinMembers_spec)
  next
    case (EventMemberLeave ms)
    then have n: "\<forall>m \<in> set ms. Name m \<noteq> localName"
      using Cons.prems by (auto simp: leaves_local_def)
    then have "filter (\<lambda>m. Name m \<noteq> localName) ms = ms" by (simp add: filter_True)
    then show ?thesis
      using ih EventMemberLeave leaveMembers_spec [OF n] by (simp add: spec_dispatch_def)
  next
    case (EventMemberFailed ms)
    then have n: "\<forall>m \<in> set ms. Name m \<noteq> localName"
      using Cons.prems by (auto simp: leaves_local_def)
    then have "filter (\<lambda>m. Name m \<noteq> localName) ms = ms" by (simp add: filter_True)
    then show ?thesis
      using ih EventMemberFailed leaveMembers_spec [OF n] by (simp add: spec_dispatch_def)
  next
    case EventOther
    then show ?thesis using ih by (simp add: spec_dispatch_def)
  qed
qed

text \<open>
  C9 asks that the loop skips only the local node and goes on with the other members and
  the later events.  The join branch does (\<open>continue\<close>); the leave/failed branch has
  \<open>return\<close> in that place, which ends \<open>eventHandler\<close>: on a leave event that lists the
  local node first and another node after it, followed by a join event, the handler is
  never called, where the dispatch of the specification calls \<open>Leave\<close> and \<open>Join\<close>.
\<close>

theorem eventHandler_returns_at_local_leave:
  "eventHandler ''node-0''
     [EventMemberLeave [\<lparr>Name = ''node-0'', rpc_addr = ''127.0.0.1:8400''\<rparr>,
                        \<lparr>Name = ''node-1'', rpc_addr = ''127.0.0.1:8401''\<rparr>],
      EventMemberJoin [\<lparr>Name = ''node-2'', rpc_addr = ''127.0.0.1:8402''\<rparr>]]
     = []
   \<and> spec_dispatch ''node-0''
     [EventMemberLeave [\<lparr>Name = ''node-0'', rpc_addr = ''127.0.0.1:8400''\<rparr>,
                        \<lparr>Name = ''node-1'', rpc_addr = ''127.0.0.1:8401''\<rparr>],
      EventMemberJoin [\<lparr>Name = ''node-2'', rpc_addr = ''127.0.0.1:8402''\<rparr>]]
     = [Leave ''node-1'', Join ''node-2'' ''127.0.0.1:8402'']"
  by (simp add: spec_dispatch_def)




section \<open>The log: reads out of range\<close>

lemma find_None_filter: "find P xs = None \<longleftrightarrow> (\<forall>x \<in> set xs. \<not> P x)"
  by (induction xs) auto

text \<open>
  When no segment holds the offset, \<open>Log.Read\<close> fails with the error that
  \<open>fmt.Errorf\<close> made, and a turn of \<open>ConsumeStream\<close> ends the stream with it.
\<close>

lemma Log_Read_out_of_range:
  assumes "\<forall>a \<in> set (segments l).
     \<not> (baseOffset (heap l ! a) \<le> off \<and> off < nextOffset (heap l ! a))"
  shows "Log_Read unmarshal l off = (Inl (ErrorString (''offset out of range: '' @ fmt_d (unat off))), l)"
proof -
  have "find (\<lambda>a. baseOffset (heap l ! a) \<le> off \<and> off < nextOffset (heap l ! a)) (segments l)
      = None"
    using assms by (simp add: find_None_filter)
  then show ?thesis by (simp add: Log_Read_def offset_out_of_range_def)
qed

lemma ConsumeStream_turn_out_of_range:
  assumes "\<forall>a \<in> set (segments l).
     \<not> (baseOffset (heap l ! a) \<le> off \<and> off < nextOffset (heap l ! a))"
  shows "ConsumeStream_turn None unmarshal l off
     = Return (ErrorString (''offset out of range: '' @ fmt_d (unat off)))"
  using Log_Read_out_of_range [OF assms, of unmarshal]
  by (simp add: ConsumeStream_turn_def Consume_def)

lemma example_log_1:
  "example_log 1 =
     \<lparr>Dir = [], Config = example_config,
      heap = [\<lparr>store = \<lparr>store_File = [],
                        store_buf = [0, 0, 0, 0, 0, 0, 0, 21, 0, 0, 0, 0, 0, 0, 0, 0, 0, 0, 0,
                                     0, 0, 0, 0, 0, 0, 0, 0, 0, 0],
                        store_size = 29\<rparr>,
               index = \<lparr>index_mmap = replicate 36 0, index_size = 12\<rparr>,
               baseOffset = 0, nextOffset = 1, config = example_config\<rparr>],
      activeSegment = Some 0, segments = [0]\<rparr>"
  by code_simp

text \<open>
  C3 asks that a read out of range fails with the typed error \<open>OffsetOutOfRange\<close>, which
  the RPC boundary maps to its status and \<open>ConsumeStream\<close> answers by waiting.  In the
  log with one record at offset 0, \<open>Read(1)\<close> fails with the untyped error of
  \<open>fmt.Errorf\<close>, which is not \<open>api.ErrOffsetOutOfRange\<close>; the type switch of
  \<open>ConsumeStream\<close> takes its default branch and ends the stream instead of waiting.
\<close>

theorem Consume_past_boundary:
  "segments (example_log 1) = [0]
   \<and> baseOffset (heap (example_log 1) ! 0) = 0 \<and> nextOffset (heap (example_log 1) ! 0) = 1
   \<and> fst (Log_Read example_unmarshal (example_log 1) 0)
        = Inr \<lparr>Value = [0], Offset = 0, Term = 0, Type = 0\<rparr>
   \<and> fst (Log_Read example_unmarshal (example_log 1) 1)
        = Inl (ErrorString ''offset out of range: 1'')
   \<and> fst (Log_Read example_unmarshal (example_log 1) 1) \<noteq> Inl (ErrOffsetOutOfRange 1)
   \<and> ConsumeStream_turn None example_unmarshal (example_log 1) 1
        = Return (ErrorString ''offset out of range: 1'')
   \<and> ConsumeStream_turn None example_unmarshal (example_log 1) 1 \<noteq> Retry"
  unfolding example_log_1 by code_simp


section \<open>The log: truncation\<close>

lemma example_log_3:
  "example_log 3 =
     \<lparr>Dir = [], Config = example_config,
      heap = [\<lparr>store = \<lparr>store_File = [],
                        store_buf =
               [0, 0, 0, 0, 0, 0, 0, 21, 0, 0, 0, 0, 0, 0, 0, 0, 0, 0, 0, 0,
                0, 0, 0, 0, 0, 0, 0, 0, 0, 0, 0, 0, 0, 0, 0, 0, 21, 0, 0, 0,
                0, 0, 0, 0, 1, 0, 0, 0, 0, 0, 0, 0, 0, 0, 0, 0, 0, 1, 0, 0,
                0, 0, 0, 0, 0, 21, 0, 0, 0, 0, 0, 0, 0, 2, 0, 0, 0, 0, 0, 0,
                0, 0, 0, 0, 0, 0, 2],
                        store_size = 87\<rparr>,
               index = \<lparr>index_mmap =
               [0, 0, 0, 0, 0, 0, 0, 0, 0, 0, 0, 0, 0, 0, 0, 1, 0, 0, 0, 0,
                0, 0, 0, 29, 0, 0, 0, 2, 0, 0, 0, 0, 0, 0, 0, 58], index_size = 36\<rparr>,
               baseOffset = 0, nextOffset = 3, config = example_config\<rparr>],
      activeSegment = Some 0, segments = [0]\<rparr>"
  by code_simp

text \<open>
  C4, as stated, fails: \<open>Truncate\<close> removes whole segments only.  The log with the
  offsets 0, 1, 2 in one segment keeps that segment after \<open>Truncate(1)\<close>, since its
  \<open>nextOffset\<close> 3 is above 2, and \<open>LowestOffset()\<close> is still 0, below \<open>L + 1 = 2\<close>,
  while the log is not empty and \<open>L\<close> is below the highest offset.
\<close>

theorem Truncate_keeps_whole_segment_counterexample:
  "HighestOffset (example_log 3) = Inr 2
   \<and> segments (Truncate (example_log 3) 1) = [0]
   \<and> LowestOffset (Truncate (example_log 3) 1) = Inr 0
   \<and> \<not> (1 + 1 \<le> (0 :: uint64))"
  unfolding example_log_3 by code_simp

lemma Truncate_loop_eq:
  "Truncate_loop h lowest xs d kept =
     (foldl (\<lambda>d a. segment_Remove d (h ! a)) d (filter (\<lambda>a. nextOffset (h ! a) \<le> lowest + 1) xs),
      kept @ filter (\<lambda>a. \<not> nextOffset (h ! a) \<le> lowest + 1) xs)"
  by (induction xs arbitrary: d kept) auto

text \<open>
  C4, amended.  \<open>Truncate(L)\<close> removes exactly the segments whose \<open>nextOffset\<close> is at
  most \<open>L + 1\<close> and leaves every other segment, and the segment objects, unchanged.
  After it every segment of the log has a \<open>nextOffset\<close> above \<open>L + 1\<close>, and
  \<open>LowestOffset()\<close> is the base offset of the first segment kept (which may be below
  \<open>L + 1\<close>); when no segment is kept the log is empty and \<open>LowestOffset()\<close> panics.
\<close>

theorem Truncate_removes:
  "segments (Truncate l lowest)
     = filter (\<lambda>a. \<not> nextOffset (heap l ! a) \<le> lowest + 1) (segments l)
   \<and> heap (Truncate l lowest) = heap l
   \<and> activeSegment (Truncate l lowest) = activeSegment l
   \<and> (\<forall>a \<in> set (segments (Truncate l lowest)).
         a \<in> set (segments l) \<and> lowest + 1 < nextOffset (heap (Truncate l lowest) ! a))
   \<and> LowestOffset (Truncate l lowest)
     = (case filter (\<lambda>a. \<not> nextOffset (heap l ! a) \<le> lowest + 1) (segments l) of
          [] \<Rightarrow> Inl (RuntimePanic ''index out of range [0] with length 0'')
        | a # _ \<Rightarrow> Inr (baseOffset (heap l ! a)))"
  by (auto simp: Truncate_def Truncate_loop_eq LowestOffset_def split: list.splits)


theorem Truncate_removes_witness:
  "segments (Truncate (example_log 3) 1) = [0]
   \<and> 1 + 1 < nextOffset (heap (Truncate (example_log 3) 1) ! 0)
   \<and> segments (Truncate (example_log 3) 2) = []
   \<and> LowestOffset (Truncate (example_log 3) 2)
       = Inl (RuntimePanic ''index out of range [0] with length 0'')"
proof -
  have s: "segments (example_log 3) = [0]" "nextOffset (heap (example_log 3) ! 0) = 3"
    unfolding example_log_3 by simp_all
  have a: "\<not> (3 :: uint64) \<le> 1 + 1" "(3 :: uint64) \<le> 2 + 1" by simp_all
  have k: "segments (Truncate (example_log 3) 1) = [0]"
    using Truncate_removes [of "example_log 3" 1] s a by simp
  have "\<forall>a \<in> set (segments (Truncate (example_log 3) 1)).
      1 + 1 < nextOffset (heap (Truncate (example_log 3) 1) ! a)"
    using Truncate_removes [of "example_log 3" 1] by blast
  then have n: "1 + 1 < nextOffset (heap (Truncate (example_log 3) 1) ! 0)"
    unfolding k by simp
  have e: "segments (Truncate (example_log 3) 2) = []"
    "LowestOffset (Truncate (example_log 3) 2)
       = Inl (RuntimePanic ''index out of range [0] with length 0'')"
    using Truncate_removes [of "example_log 3" 2] s a by simp_all
  show ?thesis using k n e by simp
qed


section \<open>The segment: appends keep what it holds\<close>

lemma length_seg_entries [simp]: "length (seg_entries ps) = length ps"
  by (simp add: seg_entries_def)

lemma seg_entries_snoc:
  "seg_entries (ps @ [p]) =
     seg_entries ps @ [(ucast (of_nat (length ps) :: uint64), of_nat (length (concat (map frame ps))))]"
  by (simp add: seg_entries_def)

lemma payloads_snoc: "payloads m (recs @ [r]) = payloads m recs @ [the (m r)]"
  by (simp add: payloads_def)

lemma length_payloads [simp]: "length (payloads m recs) = length recs"
  by (simp add: payloads_def)

lemma segment_Append_inv:
  assumes inv: "seg_inv m c s recs"
    and p: "m (r\<lparr>Offset := nextOffset s\<rparr>) = Some p"
    and nm: "\<not> index_isMaxed (index s)"
  shows "\<exists>s'. segment_Append m s r = (Inr (nextOffset s), r\<lparr>Offset := nextOffset s\<rparr>, s')
     \<and> seg_inv m c s' (recs @ [r\<lparr>Offset := nextOffset s\<rparr>])
     \<and> baseOffset s' = baseOffset s"
proof -
  let ?r = "r\<lparr>Offset := nextOffset s\<rparr>"
  let ?ps = "payloads m recs"
  let ?es = "seg_entries ?ps"
  let ?st = "snd (store_Append (store s) p)"
  let ?pos = "store_size (store s)"
  let ?off = "ucast (nextOffset s - baseOffset s) :: uint32"
  have h: "index_holds (index s) ?es" and cf: "config s = c"
    and nx: "nextOffset s = baseOffset s + of_nat (length recs)"
    and ml: "length (index_mmap (index s)) = unat (MaxIndexBytes c)"
    and sb: "store_bytes (store s) = concat (map frame ?ps)"
    and ss: "store_size (store s) = of_nat (length (store_bytes (store s)))"
    using inv unfolding seg_inv_def by blast+
  note b = index_holds_bounds [OF h]
  have u: "unat (index_size (index s)) = 12 * length ?es" using h by (rule index_holds_unat_size)
  have fits: "\<not> length (index_mmap (index s)) < unat (index_size (index s)) + 12"
    using nm b by (simp add: index_isMaxed_iff)
  obtain ix where w: "index_Write (index s) ?off ?pos = Inr ix"
    using index_Write_eq [OF b(1) b(2), of ?off ?pos] fits by simp
  have h': "index_holds ix (?es @ [(?off, ?pos)])"
    using h w by (rule index_Write_holds)
  have ml': "length (index_mmap ix) = length (index_mmap (index s))"
    using index_Write_eq [OF b(1) b(2), of ?off ?pos] w fits by auto
  have off: "?off = ucast (of_nat (length ?ps) :: uint64)"
    unfolding nx by simp
  have pos: "?pos = of_nat (length (concat (map frame ?ps)))"
    unfolding ss sb ..
  have es': "seg_entries (payloads m (recs @ [?r])) = ?es @ [(?off, ?pos)]"
    unfolding payloads_snoc seg_entries_snoc off pos ..
  let ?s' = "s\<lparr>store := ?st, index := ix, nextOffset := nextOffset s + 1\<rparr>"
  have a: "segment_Append m s r = (Inr (nextOffset s), ?r, ?s')"
    using p w by (simp add: segment_Append_def Let_def split_beta store_Append_def)
  have sb': "store_bytes ?st = concat (map frame (payloads m (recs @ [?r])))"
    using p by (simp add: store_Append_bytes sb payloads_snoc)
  have ss': "store_size ?st = of_nat (length (store_bytes ?st))"
    unfolding store_Append_size store_Append_bytes ss by simp
  have "seg_inv m c ?s' (recs @ [?r])"
    unfolding seg_inv_def using cf nx h' ml ml' sb' ss' es' by simp
  then show ?thesis using a by auto
qed

section \<open>The log: offsets of appends\<close>

lemma newSegment_fresh:
  assumes "config_ok c"
  shows "\<exists>s. newSegment [] off c = Inr s \<and> seg_inv m c s [] \<and> baseOffset s = off
      \<and> \<not> index_isMaxed (index s)"
proof -
  let ?M = "unat (MaxIndexBytes c)"
  have M: "12 \<le> ?M" "?M < 2 ^ 63" using assms by (simp_all add: config_ok_def)
  have nz: "MaxIndexBytes c \<noteq> 0"
  proof
    assume "MaxIndexBytes c = 0"
    then have "?M = 0" by simp
    then show False using M by simp
  qed
  let ?ix = "\<lparr>index_mmap = replicate ?M 0, index_size = 0\<rparr>"
  have n: "newIndex [] c = Inr ?ix"
    using M nz by (simp add: newIndex_def Let_def sint_neg_iff)
  have h: "index_holds ?ix []" using n by (rule newIndex_holds)
  have r: "index_Read ?ix (- 1) = Inl EOF" by (simp add: index_Read_def)
  let ?s = "\<lparr>store = newStore [], index = ?ix, baseOffset = off, nextOffset = off, config = c\<rparr>"
  have e: "newSegment [] off c = Inr ?s"
    using n r by (simp add: newSegment_def OpenFile_def Let_def)
  have i: "seg_inv m c ?s []"
    using h by (simp add: seg_inv_def payloads_def seg_entries_def newStore_def store_bytes_def)
  have "\<not> index_isMaxed ?ix"
    using M index_isMaxed_iff [of ?ix] by simp
  then show ?thesis using e i by auto
qed

lemma NewLog_fresh:
  assumes "MaxIndexBytes c0 = 0 \<or> (12 \<le> unat (MaxIndexBytes c0) \<and> unat (MaxIndexBytes c0) < 2 ^ 63)"
  shows "\<exists>l c. NewLog [] c0 = Inr l \<and> log_inv m c (InitialOffset c0) l [[]] \<and> config_ok c
     \<and> MaxStoreBytes c = (if MaxStoreBytes c0 = 0 then 1024 else MaxStoreBytes c0)
     \<and> MaxIndexBytes c = (if MaxIndexBytes c0 = 0 then 1024 else MaxIndexBytes c0)"
proof -
  let ?c1 = "if MaxStoreBytes c0 = 0 then c0\<lparr>MaxStoreBytes := 1024\<rparr> else c0"
  let ?c = "if MaxIndexBytes ?c1 = 0 then ?c1\<lparr>MaxIndexBytes := 1024\<rparr> else ?c1"
  let ?l = "\<lparr>Dir = [], Config = ?c, heap = [], activeSegment = None, segments = []\<rparr>"
  have ok: "config_ok ?c" using assms by (auto simp: config_ok_def)
  have io: "InitialOffset ?c = InitialOffset c0" by simp
  obtain s where s: "newSegment [] (InitialOffset c0) ?c = Inr s" "seg_inv m ?c s []"
    "baseOffset s = InitialOffset c0"
    using newSegment_fresh [OF ok, of "InitialOffset c0" m] by blast
  let ?l' = "?l\<lparr>heap := [s], segments := [0], activeSegment := Some 0\<rparr>"
  have "Log_newSegment ?l (InitialOffset c0) = Inr ?l'"
    using s(1) by (simp add: Log_newSegment_def)
  then have "Log_setup ?l = Inr ?l'"
    unfolding Log_setup_def by (simp add: io del: One_nat_def)
  then have n: "NewLog [] c0 = Inr ?l'"
    unfolding NewLog_def Let_def .
  have "log_inv m ?c (InitialOffset c0) ?l' [[]]"
    using s(2,3) by (simp add: log_inv_def)
  then show ?thesis using n ok by (intro exI [of _ ?l'] exI [of _ ?c]) auto
qed

lemma concat_take_last:
  "chunks \<noteq> [] \<Longrightarrow> concat chunks = concat (take (length chunks - 1) chunks) @ chunks ! (length chunks - 1)"
proof -
  assume "chunks \<noteq> []"
  then have "chunks = butlast chunks @ [last chunks]" by simp
  then have "concat chunks = concat (butlast chunks) @ last chunks"
    by (metis concat.simps(1) concat.simps(2) concat_append append_Nil2)
  then show ?thesis using \<open>chunks \<noteq> []\<close> by (simp add: butlast_conv_take last_conv_nth)
qed

lemma log_inv_active:
  assumes "log_inv m c initial l chunks"
  shows "activeSegment l = Some (length chunks - 1)"
    and "length chunks - 1 < length chunks"
    and "seg_inv m c (heap l ! (length chunks - 1)) (chunks ! (length chunks - 1))"
    and "nextOffset (heap l ! (length chunks - 1)) = initial + of_nat (length (concat chunks))"
    and "highestOffset l =
      Inr (if initial + of_nat (length (concat chunks)) = 0 then 0
           else initial + of_nat (length (concat chunks)) - 1)"
proof -
  let ?a = "length chunks - 1"
  have ne: "chunks \<noteq> []" and sg: "segments l = [0..<length chunks]"
    and all: "\<forall>i < length chunks. seg_inv m c (heap l ! i) (chunks ! i)
          \<and> baseOffset (heap l ! i) = initial + of_nat (length (concat (take i chunks)))"
    using assms unfolding log_inv_def by blast+
  show "activeSegment l = Some ?a" using assms unfolding log_inv_def by blast
  show a: "?a < length chunks" using ne by simp
  show si: "seg_inv m c (heap l ! ?a) (chunks ! ?a)" using all a by blast
  have b: "baseOffset (heap l ! ?a) = initial + of_nat (length (concat (take ?a chunks)))"
    using all a by blast
  have "nextOffset (heap l ! ?a) = baseOffset (heap l ! ?a) + of_nat (length (chunks ! ?a))"
    using si unfolding seg_inv_def by blast
  also have "\<dots> = initial + of_nat (length (concat (take ?a chunks)) + length (chunks ! ?a))"
    unfolding b by simp
  also have "length (concat (take ?a chunks)) + length (chunks ! ?a) = length (concat chunks)"
    using concat_take_last [OF ne] by (metis length_append)
  finally show nx: "nextOffset (heap l ! ?a) = initial + of_nat (length (concat chunks))" .
  have "last (segments l) = ?a" unfolding sg using ne by simp
  moreover have "segments l \<noteq> []" unfolding sg using ne by simp
  ultimately show "highestOffset l =
      Inr (if initial + of_nat (length (concat chunks)) = 0 then 0
           else initial + of_nat (length (concat chunks)) - 1)"
    using nx by (simp add: highestOffset_def Let_def)
qed

lemma log_inv_update_last:
  assumes inv: "log_inv m c initial l chunks"
    and s': "seg_inv m c s' (chunks ! (length chunks - 1) @ [r'])"
    and b': "baseOffset s' = baseOffset (heap l ! (length chunks - 1))"
  shows "log_inv m c initial (l\<lparr>heap := (heap l)[length chunks - 1 := s']\<rparr>)
           (chunks[length chunks - 1 := chunks ! (length chunks - 1) @ [r']])"
proof -
  let ?a = "length chunks - 1"
  let ?chunks' = "chunks[?a := chunks ! ?a @ [r']]"
  have ne: "chunks \<noteq> []" and hl: "length (heap l) = length chunks"
    and all: "\<forall>i < length chunks. seg_inv m c (heap l ! i) (chunks ! i)
          \<and> baseOffset (heap l ! i) = initial + of_nat (length (concat (take i chunks)))"
    using inv unfolding log_inv_def by blast+
  have tk: "take i ?chunks' = take i chunks" if "i < length chunks" for i
    using that by simp
  have "seg_inv m c ((heap l)[?a := s'] ! i) (?chunks' ! i)
      \<and> baseOffset ((heap l)[?a := s'] ! i) = initial + of_nat (length (concat (take i ?chunks')))"
    if i: "i < length chunks" for i
  proof (cases "i = ?a")
    case True
    then show ?thesis using i hl s' b' all tk [OF i] by simp
  next
    case False
    then show ?thesis using i hl all tk [OF i] by simp
  qed
  then show ?thesis
    using inv ne unfolding log_inv_def by simp
qed

lemma concat_update_last:
  assumes ne: "chunks \<noteq> []"
  shows "concat (chunks[length chunks - 1 := chunks ! (length chunks - 1) @ [r]])
     = concat chunks @ [r]"
proof -
  let ?a = "length chunks - 1"
  have a: "?a < length chunks" using ne by simp
  have "chunks[?a := chunks ! ?a @ [r]] = take ?a chunks @ (chunks ! ?a @ [r]) # drop (Suc ?a) chunks"
    using a by (rule upd_conv_take_nth_drop)
  also have "drop (Suc ?a) chunks = []" using ne by simp
  finally have "concat (chunks[?a := chunks ! ?a @ [r]])
      = (concat (take ?a chunks) @ chunks ! ?a) @ [r]" by simp
  then show ?thesis using concat_take_last [OF ne] by simp
qed

lemma seg_inv_empty_not_maxed:
  assumes "seg_inv m c s []" "config_ok c"
  shows "\<not> segment_isMaxed s"
proof -
  have cf: "config s = c" and h: "index_holds (index s) []"
    and ml: "length (index_mmap (index s)) = unat (MaxIndexBytes c)"
    and sz: "store_size (store s) = 0"
    using assms(1) unfolding seg_inv_def by (simp_all add: payloads_def seg_entries_def)
  have M: "MaxStoreBytes c \<noteq> 0" "12 \<le> unat (MaxIndexBytes c)"
    using assms(2) by (simp_all add: config_ok_def)
  have iz: "index_size (index s) = 0" using h by (simp add: index_holds_def)
  have "MaxIndexBytes c \<noteq> 0" using M(2) by auto
  then have a: "\<not> MaxIndexBytes c \<le> 0" "\<not> MaxStoreBytes c \<le> 0" using M(1) by simp_all
  have "\<not> index_isMaxed (index s)"
    using index_isMaxed_nat [OF h] ml M(2) by simp
  then show ?thesis using a by (simp add: segment_isMaxed_def cf sz iz)
qed

lemma Log_Append_inv:
  assumes inv: "log_inv m c initial l chunks" and ok: "config_ok c"
    and tot: "\<forall>r. m r \<noteq> None"
    and nw: "unat initial + length (concat chunks) < 2 ^ 64"
  shows "\<exists>l' chunks'.
     Log_Append m l r =
       (Inr (initial + of_nat (length (concat chunks))),
        r\<lparr>Offset := initial + of_nat (length (concat chunks))\<rparr>, l')
     \<and> log_inv m c initial l' chunks'
     \<and> concat chunks' = concat chunks @ [r\<lparr>Offset := initial + of_nat (length (concat chunks))\<rparr>]"
proof -
  let ?a = "length chunks - 1"
  let ?s = "heap l ! ?a"
  let ?next = "initial + of_nat (length (concat chunks))"
  let ?r = "r\<lparr>Offset := ?next\<rparr>"
  note act = log_inv_active [OF inv]
  have ne: "chunks \<noteq> []" and hl: "length (heap l) = length chunks"
    and cl: "Config l = c" and dl: "Dir l = []" and sg: "segments l = [0..<length chunks]"
    using inv unfolding log_inv_def by blast+
  have "m ?r \<noteq> None" using tot by blast
  then obtain p where p: "m ?r = Some p" by blast
  show ?thesis
  proof (cases "segment_isMaxed ?s")
    case False
    then have nm: "\<not> index_isMaxed (index ?s)" by (simp add: segment_isMaxed_def)
    obtain s' where s': "segment_Append m ?s r = (Inr ?next, ?r, s')"
      "seg_inv m c s' (chunks ! ?a @ [?r])" "baseOffset s' = baseOffset ?s"
      using segment_Append_inv [OF act(3) _ nm, of r p] p unfolding act(4) by blast
    let ?l' = "l\<lparr>heap := (heap l)[?a := s']\<rparr>"
    have "Log_Append m l r = (Inr ?next, ?r, ?l')"
      using False s'(1) act(1) act(5) by (simp add: Log_Append_def)
    moreover have "log_inv m c initial ?l' (chunks[?a := chunks ! ?a @ [?r]])"
      using inv s'(2) s'(3) by (rule log_inv_update_last)
    moreover have "concat (chunks[?a := chunks ! ?a @ [?r]]) = concat chunks @ [?r]"
      using ne by (rule concat_update_last)
    ultimately show ?thesis by blast
  next
    case True
    have "chunks ! ?a \<noteq> []"
    proof
      assume "chunks ! ?a = []"
      then have "seg_inv m c ?s []" using act(3) by simp
      then show False using seg_inv_empty_not_maxed ok True by blast
    qed
    then have "length (chunks ! ?a) \<noteq> 0" by simp
    then have K: "length (concat chunks) \<noteq> 0"
      using concat_take_last [OF ne] by (metis add_is_0 length_append)
    have un: "unat ?next = unat initial + length (concat chunks)"
    proof -
      have "length (concat chunks) < 2 ^ 64" using nw by simp
      then have "unat (of_nat (length (concat chunks)) :: uint64) = length (concat chunks)"
        by (rule unat_of_nat64)
      then show ?thesis using nw by (simp add: unat_add_lem [THEN iffD1])
    qed
    have nz: "?next \<noteq> 0"
    proof
      assume "?next = 0"
      then have "unat ?next = 0" by simp
      then show False using un K by simp
    qed
    have hi: "highestOffset l = Inr (?next - 1)" using act(5) nz by simp
    obtain sn where sn: "newSegment [] ?next c = Inr sn" "seg_inv m c sn []" "baseOffset sn = ?next"
      "\<not> index_isMaxed (index sn)"
      using newSegment_fresh [OF ok, of ?next m] by blast
    let ?l1 = "l\<lparr>heap := heap l @ [sn], segments := segments l @ [length (heap l)],
                  activeSegment := Some (length (heap l))\<rparr>"
    have l1: "Log_newSegment l (?next - 1 + 1) = Inr ?l1"
      using sn(1) by (simp add: Log_newSegment_def dl cl)
    have nsn: "nextOffset sn = ?next" using sn(2,3) by (simp add: seg_inv_def)
    obtain s' where s': "segment_Append m sn r = (Inr ?next, ?r, s')"
      "seg_inv m c s' ([] @ [?r])" "baseOffset s' = baseOffset sn"
      using segment_Append_inv [OF sn(2) _ sn(4), of r p] p unfolding nsn by blast
    let ?l' = "?l1\<lparr>heap := (heap ?l1)[length (heap l) := s']\<rparr>"
    have app: "Log_Append m l r = (Inr ?next, ?r, ?l')"
      using True act(1) hi l1 s'(1) by (simp add: Log_Append_def)
    have hp: "heap ?l' = heap l @ [s']" by simp
    have all: "\<forall>i < length chunks. seg_inv m c (heap l ! i) (chunks ! i)
          \<and> baseOffset (heap l ! i) = initial + of_nat (length (concat (take i chunks)))"
      using inv unfolding log_inv_def by blast
    have "seg_inv m c ((heap l @ [s']) ! i) ((chunks @ [[?r]]) ! i)
      \<and> baseOffset ((heap l @ [s']) ! i)
          = initial + of_nat (length (concat (take i (chunks @ [[?r]]))))"
      if i: "i < length (chunks @ [[?r]])" for i
    proof (cases "i < length chunks")
      case True
      then show ?thesis using all hl by (simp add: nth_append)
    next
      case False
      then have "i = length chunks" using i by simp
      then show ?thesis using s'(2,3) sn(3) hl by (simp add: nth_append)
    qed
    then have "log_inv m c initial ?l' (chunks @ [[?r]])"
      unfolding log_inv_def hp using cl dl sg hl by simp
    moreover have "concat (chunks @ [[?r]]) = concat chunks @ [?r]" by simp
    ultimately show ?thesis using app by blast
  qed
qed

lemma offsets_from_eq: "offsets_from off n = map (\<lambda>k. off + of_nat k) [0..<n]"
proof (induction n arbitrary: off)
  case 0
  then show ?case by simp
next
  case (Suc n)
  have "map (\<lambda>k. off + of_nat k) [0..<Suc n] = off # map (\<lambda>k. off + of_nat (Suc k)) [0..<n]"
    by (simp add: upt_conv_Cons map_Suc_upt [symmetric] del: upt_Suc)
  then show ?case using Suc [of "off + 1"] by (simp add: add.assoc add.commute)
qed

lemma Log_Appends_inv:
  assumes "log_inv m c initial l chunks" and ok: "config_ok c" and tot: "\<forall>r. m r \<noteq> None"
    and "unat initial + length (concat chunks) + length rs \<le> 2 ^ 64"
  shows "\<exists>l' chunks'.
     Log_Appends m l rs =
       Inr (offsets_from (initial + of_nat (length (concat chunks))) (length rs), l')
     \<and> log_inv m c initial l' chunks'
     \<and> concat chunks' = concat chunks @ stamp (initial + of_nat (length (concat chunks))) rs"
  using assms(1,4)
proof (induction rs arbitrary: l chunks)
  case Nil
  then show ?case by auto
next
  case (Cons r rs)
  let ?K = "length (concat chunks)"
  let ?r = "r\<lparr>Offset := initial + of_nat ?K\<rparr>"
  have nw: "unat initial + ?K < 2 ^ 64" using Cons.prems(2) by simp
  obtain l1 chunks1 where a: "Log_Append m l r = (Inr (initial + of_nat ?K), ?r, l1)"
    and i1: "log_inv m c initial l1 chunks1"
    and c1: "concat chunks1 = concat chunks @ [?r]"
    using Log_Append_inv [OF Cons.prems(1) ok tot nw, of r] by blast
  have k1: "length (concat chunks1) = Suc ?K" using c1 by simp
  have nw1: "unat initial + length (concat chunks1) + length rs \<le> 2 ^ 64"
    using Cons.prems(2) k1 by simp
  obtain l' chunks' where b: "Log_Appends m l1 rs =
       Inr (offsets_from (initial + of_nat (length (concat chunks1))) (length rs), l')"
    and i': "log_inv m c initial l' chunks'"
    and c': "concat chunks' = concat chunks1 @ stamp (initial + of_nat (length (concat chunks1))) rs"
    using Cons.IH [OF i1 nw1] by blast
  have o: "initial + of_nat (length (concat chunks1)) = initial + of_nat ?K + 1"
    unfolding k1 by simp
  have "Log_Appends m l (r # rs) =
      Inr (offsets_from (initial + of_nat ?K) (length (r # rs)), l')"
    using a b unfolding o by simp
  moreover have "concat chunks' = concat chunks @ stamp (initial + of_nat ?K) (r # rs)"
    using c' c1 unfolding o by simp
  ultimately show ?case using i' by blast
qed

text \<open>
  C2.  A log opened on an empty directory with initial offset \<open>initial\<close> (and an index
  cap that is 0, for the default, or at least one entry and below \<open>2\<^sup>6\<^sup>3\<close>) opens, and
  appending \<open>N\<close> records to it succeeds and returns the offsets \<open>initial\<close>,
  \<open>initial + 1\<close>, ..., \<open>initial + N - 1\<close> in that order, whatever the caps of the
  segments are, so also across the appends that rotate in a new segment.  Read as
  numbers the offsets are the interval from \<open>initial\<close> to \<open>initial + N\<close>: strictly
  increasing, without a gap (the offsets stay below \<open>2\<^sup>6\<^sup>4\<close>).
\<close>

theorem Log_Append_offsets:
  assumes "MaxIndexBytes c0 = 0 \<or> (12 \<le> unat (MaxIndexBytes c0) \<and> unat (MaxIndexBytes c0) < 2 ^ 63)"
    and "\<forall>r. marshal r \<noteq> None"
    and "unat (InitialOffset c0) + length rs \<le> 2 ^ 64"
  shows "\<exists>l0 l'. NewLog [] c0 = Inr l0
     \<and> Log_Appends marshal l0 rs
          = Inr (map (\<lambda>k. InitialOffset c0 + of_nat k) [0..<length rs], l')
     \<and> map unat (map (\<lambda>k. InitialOffset c0 + of_nat k) [0..<length rs])
          = [unat (InitialOffset c0)..<unat (InitialOffset c0) + length rs]"
proof -
  let ?i = "InitialOffset c0"
  obtain l0 c where n: "NewLog [] c0 = Inr l0" and i0: "log_inv marshal c ?i l0 [[]]"
    and ok: "config_ok c"
    using NewLog_fresh [OF assms(1), of marshal] by blast
  have nw: "unat ?i + length (concat [[]]) + length rs \<le> 2 ^ 64" using assms(3) by simp
  obtain l' where a: "Log_Appends marshal l0 rs = Inr (offsets_from ?i (length rs), l')"
    using Log_Appends_inv [OF i0 ok assms(2) nw] by auto
  have u: "unat (?i + of_nat k) = unat ?i + k" if "k < length rs" for k
  proof -
    have "k < 2 ^ 64" using that assms(3) by simp
    then have "unat (of_nat k :: uint64) = k" by (rule unat_of_nat64)
    moreover have "unat ?i + k < 2 ^ 64" using that assms(3) by simp
    ultimately show ?thesis by (simp add: unat_add_lem [THEN iffD1])
  qed
  have "map unat (map (\<lambda>k. ?i + of_nat k) [0..<length rs])
      = map (\<lambda>k. unat ?i + k) [0..<length rs]"
    using u by simp
  also have "\<dots> = [unat ?i..<unat ?i + length rs]"
    by (simp add: map_add_upt add.commute)
  finally show ?thesis using n a unfolding offsets_from_eq by blast
qed

theorem Log_Append_offsets_witness:
  "(\<exists>l0 l'. NewLog [] example_config = Inr l0
      \<and> Log_Appends example_marshal l0 (map example_record [0..<4]) = Inr ([0, 1, 2, 3], l'))
   \<and> length (heap (example_log 4)) = 2"
proof -
  have h1: "MaxIndexBytes example_config = 0
      \<or> (12 \<le> unat (MaxIndexBytes example_config) \<and> unat (MaxIndexBytes example_config) < 2 ^ 63)"
    by (simp add: example_config_def)
  have h2: "\<forall>r. example_marshal r \<noteq> None" by (simp add: example_marshal_def)
  have h3: "unat (InitialOffset example_config) + length (map example_record [0..<4]) \<le> 2 ^ 64"
    by (simp add: example_config_def)
  have e: "map (\<lambda>k. InitialOffset example_config + of_nat k)
      [0..<length (map example_record [0..<4])] = [0, 1, 2, 3]"
    by code_simp
  have r: "length (heap (example_log 4)) = 2" by code_simp
  show ?thesis
    using Log_Append_offsets [OF h1 h2 h3] r unfolding e by blast
qed

end
